theory Spec2Isabelle
  imports Complex_Main "HOL-Library.Multiset" "HOL-Library.Signed_Division"
begin

section \<open>Data model\<close>

text \<open>
  The sources are Rcpp functions over \<open>NumericVector\<close> (a vector of C \<open>double\<close>),
  \<open>IntegerVector\<close> and \<open>std::vector<int>\<close> (vectors of C \<open>int\<close>).

  A \<open>double\<close> is modelled as an exact real number (\<open>Fin 0\<close> is the positive zero), the
  negative zero, one of the two infinities or NaN. The result of an addition or a division
  that lies beyond the range of \<open>double\<close> is the infinity that IEEE arithmetic gives.
  Rounding within the range, and underflow, are not modelled: \<open>Fin r\<close> stands for the
  double nearest to \<open>r\<close>.

  A C \<open>int\<close> is modelled as an \<open>int\<close>. The integers the sources compute from the length of
  a vector are lengths and indices of R vectors, which fit a C \<open>int\<close>; where a difference
  is taken with an argument of the caller (\<open>n - order\<close>) the wrap-around to 32 bits is
  written out. The division and the remainder of C++ on \<open>int\<close> truncate toward zero
  (\<open>sdiv\<close>, \<open>smod\<close>).
\<close>

datatype dbl = Fin real | NZero | PInf | MInf | NaN

text \<open>
  A real result at or beyond \<open>dbl_ovf\<close>, the midpoint between the greatest \<open>double\<close>
  \<open>2^1024 - 2^971\<close> and \<open>2^1024\<close>, rounds to infinity.
\<close>

definition dbl_ovf :: real where
  "dbl_ovf = 2 ^ 1024 - 2 ^ 970"

definition ovf :: "real \<Rightarrow> dbl" where
  "ovf r = (if dbl_ovf \<le> r then PInf else if r \<le> - dbl_ovf then MInf else Fin r)"

text \<open>The sign bit, the zeros, the infinities and the real value of a finite double.\<close>

fun is_neg :: "dbl \<Rightarrow> bool" where
  "is_neg (Fin r) = (r < 0)"
| "is_neg NZero = True"
| "is_neg PInf = False"
| "is_neg MInf = True"
| "is_neg NaN = False"

fun is_zero :: "dbl \<Rightarrow> bool" where
  "is_zero (Fin r) = (r = 0)"
| "is_zero NZero = True"
| "is_zero _ = False"

fun is_inf :: "dbl \<Rightarrow> bool" where
  "is_inf PInf = True"
| "is_inf MInf = True"
| "is_inf _ = False"

fun val :: "dbl \<Rightarrow> real" where
  "val (Fin r) = r"
| "val _ = 0"

definition zero_of :: "bool \<Rightarrow> dbl" where
  "zero_of neg = (if neg then NZero else Fin 0)"

definition inf_of :: "bool \<Rightarrow> dbl" where
  "inf_of neg = (if neg then MInf else PInf)"

fun dneg :: "dbl \<Rightarrow> dbl" where
  "dneg (Fin a) = (if a = 0 then NZero else Fin (- a))"
| "dneg NZero = Fin 0"
| "dneg PInf = MInf"
| "dneg MInf = PInf"
| "dneg NaN = NaN"

text \<open>
  Addition: the sum of two zeros is the negative zero only when both are; an exact sum 0 of
  two numbers is the positive zero.
\<close>

fun dadd :: "dbl \<Rightarrow> dbl \<Rightarrow> dbl" where
  "dadd NaN _ = NaN"
| "dadd _ NaN = NaN"
| "dadd PInf MInf = NaN"
| "dadd MInf PInf = NaN"
| "dadd PInf _ = PInf"
| "dadd _ PInf = PInf"
| "dadd MInf _ = MInf"
| "dadd _ MInf = MInf"
| "dadd NZero NZero = NZero"
| "dadd NZero (Fin b) = Fin b"
| "dadd (Fin a) NZero = Fin a"
| "dadd (Fin a) (Fin b) = ovf (a + b)"

definition dsub :: "dbl \<Rightarrow> dbl \<Rightarrow> dbl" where
  "dsub a b = dadd a (dneg b)"

text \<open>
  Division: the sign of the result is the exclusive or of the signs of the operands;
  \<open>0 / 0\<close> and \<open>\<infinity> / \<infinity>\<close> are NaN, a number other than zero divided by a zero is an infinity.
\<close>

definition ddiv :: "dbl \<Rightarrow> dbl \<Rightarrow> dbl" where
  "ddiv a b =
     (if a = NaN \<or> b = NaN then NaN
      else if is_inf a then (if is_inf b then NaN else inf_of (is_neg a \<noteq> is_neg b))
      else if is_inf b then zero_of (is_neg a \<noteq> is_neg b)
      else if is_zero b then (if is_zero a then NaN else inf_of (is_neg a \<noteq> is_neg b))
      else if is_zero a then zero_of (is_neg a \<noteq> is_neg b)
      else ovf (val a / val b))"

text \<open>
  The comparisons \<open><\<close> and \<open>==\<close> of C++ on doubles: false whenever an operand is NaN, and
  the two zeros are equal and neither is less than the other.
\<close>

fun dless :: "dbl \<Rightarrow> dbl \<Rightarrow> bool" where
  "dless NaN _ = False"
| "dless _ NaN = False"
| "dless (Fin a) (Fin b) = (a < b)"
| "dless (Fin a) NZero = (a < 0)"
| "dless NZero (Fin b) = (0 < b)"
| "dless NZero NZero = False"
| "dless MInf MInf = False"
| "dless MInf _ = True"
| "dless _ MInf = False"
| "dless PInf _ = False"
| "dless _ PInf = True"

definition deq :: "dbl \<Rightarrow> dbl \<Rightarrow> bool" where
  "deq a b = (a \<noteq> NaN \<and> b \<noteq> NaN \<and> (a = b \<or> (is_zero a \<and> is_zero b)))"

text \<open>
  Conversion of an \<open>int\<close> to a \<open>double\<close>. Every C \<open>int\<close> converts exactly; an integer of the
  model beyond the range of \<open>double\<close> converts as a result beyond the range does.
\<close>

definition dbl_of_int :: "int \<Rightarrow> dbl" where
  "dbl_of_int i = ovf (of_int i)"

text \<open>
  Coercion of an R numeric vector to an integer vector (\<open>IntegerVector v = list["values"]\<close>):
  truncation toward zero; a value that is not finite, or not in the range of \<open>int\<close>,
  becomes \<open>NA_integer\<close>, which is the least 32-bit integer.
\<close>

definition NA_integer :: int where
  "NA_integer = - 2147483648"

fun int_of_dbl :: "dbl \<Rightarrow> int" where
  "int_of_dbl (Fin r) =
     (if r < - 2147483648 \<or> 2147483648 \<le> r then NA_integer
      else if 0 \<le> r then \<lfloor>r\<rfloor> else \<lceil>r\<rceil>)"
| "int_of_dbl NZero = 0"
| "int_of_dbl _ = NA_integer"

text \<open>
  The value that the compiled code gives a C \<open>int\<close> expression whose exact value is \<open>k\<close>:
  \<open>k\<close> wrapped around to 32 bits (beyond the range of \<open>int\<close> the arithmetic of C++ is
  undefined behaviour).
\<close>

definition wrap32 :: "int \<Rightarrow> int" where
  "wrap32 k = (k + 2147483648) mod 4294967296 - 2147483648"

subsection \<open>Faults\<close>

text \<open>
  What the sources can do other than return a result.
  \<^item> \<open>OutOfBounds\<close>: a vector is read or written out of range. The subsetting \<open>x[ind]\<close> of
    Rcpp checks its indices and throws. \<open>operator[]\<close> does not: the access is undefined
    behaviour in C++, and the compiled code may well go on and return a vector. The model
    ends at the first such access and says nothing of what the code does after it.
  \<^item> \<open>IntDivByZero\<close>: an \<open>int\<close> is divided by zero, which is undefined behaviour too.
  \<^item> \<open>NegativeLength\<close>: a vector of negative length is asked for, which R refuses with an
    error.
  \<^item> \<open>InvalidArgument\<close> is the error of the specification; no branch of the sources
    produces it.
\<close>

datatype fault = OutOfBounds | IntDivByZero | NegativeLength | InvalidArgument

definition bindE :: "fault + 'a \<Rightarrow> ('a \<Rightarrow> fault + 'b) \<Rightarrow> fault + 'b" where
  "bindE m f = (case m of Inl e \<Rightarrow> Inl e | Inr v \<Rightarrow> f v)"

definition rd :: "'a list \<Rightarrow> int \<Rightarrow> fault + 'a" where
  "rd xs i = (if 0 \<le> i \<and> i < int (length xs) then Inr (xs ! nat i) else Inl OutOfBounds)"

definition wr :: "'a list \<Rightarrow> int \<Rightarrow> 'a \<Rightarrow> fault + 'a list" where
  "wr xs i v = (if 0 \<le> i \<and> i < int (length xs) then Inr (xs[nat i := v]) else Inl OutOfBounds)"

text \<open>A new vector of \<open>n\<close> elements, each \<open>v\<close> (R and \<open>std::vector\<close> fill with zero).\<close>

definition alloc :: "int \<Rightarrow> 'a \<Rightarrow> fault + 'a list" where
  "alloc n v = (if n < 0 then Inl NegativeLength else Inr (replicate (nat n) v))"

text \<open>The subsetting \<open>x[ind]\<close> of Rcpp, which checks every index.\<close>

fun subset_at :: "'a list \<Rightarrow> int list \<Rightarrow> fault + 'a list" where
  "subset_at xs [] = Inr []"
| "subset_at xs (i # is) = bindE (rd xs i) (\<lambda>v. bindE (subset_at xs is) (\<lambda>vs. Inr (v # vs)))"

text \<open>
  The loop \<open>for (int i = a; i < b; ++i) body\<close> is \<open>for_loop [a..<b] body\<close>: the body is run
  for each index in turn on the state the loop changes, and a fault ends the loop.
\<close>

fun for_loop :: "nat list \<Rightarrow> (nat \<Rightarrow> 's \<Rightarrow> fault + 's) \<Rightarrow> 's \<Rightarrow> fault + 's" where
  "for_loop [] body s = Inr s"
| "for_loop (i # is) body s = bindE (body i s) (for_loop is body)"

section \<open>rle.cpp\<close>

text \<open>The list \<open>List::create(_["lengths"] = lengths, _["values"] = values)\<close> that \<open>rleC\<close> returns.\<close>

record rle_list =
  lengths :: "int list"
  "values" :: "dbl list"

text \<open>
  The state of the scan is \<open>(i, prev, lengths, values)\<close>. The iterator \<open>it\<close> is the index
  \<open>k\<close> of the element it points to, and \<open>*it\<close> is a checked read. The scan
  \<open>for (it = x.begin() + 1; it != x.end(); ++it)\<close> is reached only after the read of
  \<open>x[0]\<close>, hence on a vector of at least one element, where it visits the indices from 1
  up to the length.
\<close>

definition rleC :: "dbl list \<Rightarrow> fault + rle_list" where
  "rleC x =
     bindE (rd x 0) (\<lambda>prev0.
     bindE (for_loop [1..<length x]
              (\<lambda>k (i, prev, lens, vals).
                 bindE (rd x (int k)) (\<lambda>v.
                 if deq prev v
                 then bindE (rd lens i) (\<lambda>l.
                      bindE (wr lens i (l + 1)) (\<lambda>lens'. Inr (i, prev, lens', vals)))
                 else Inr (i + 1, v, lens @ [1], vals @ [v])))
              (0, prev0, [1], [prev0]))
       (\<lambda>(i, prev, lens, vals). Inr \<lparr>lengths = lens, values = vals\<rparr>))"

section \<open>helpers.cpp\<close>

subsection \<open>repr\_sma\<close>

text \<open>
  \<open>order\<close> is a C \<open>int\<close>, and so is the difference \<open>n_ma = n - order\<close>, which wraps around
  beyond the range of \<open>int\<close>. \<open>NumericVector repr(n_ma)\<close> is refused by R when \<open>n_ma\<close> is
  negative. Every \<open>x[\<dots>]\<close> and \<open>repr[\<dots>]\<close> is an unchecked \<open>operator[]\<close>: where the index is
  out of range the model ends in \<open>OutOfBounds\<close>, and the code has undefined behaviour there
  (it may go on and return a vector).
\<close>

definition repr_sma :: "dbl list \<Rightarrow> int \<Rightarrow> fault + dbl list" where
  "repr_sma x order =
     (let n = int (length x);
          n_ma = wrap32 (n - order)
      in bindE (alloc n_ma (Fin 0)) (\<lambda>repr.
         bindE (for_loop [0..<nat order]
                  (\<lambda>i sum. bindE (rd x (int i)) (\<lambda>v. Inr (dadd sum v))) (Fin 0)) (\<lambda>sum.
         bindE (wr repr 0 (ddiv sum (dbl_of_int order))) (\<lambda>repr.
         for_loop [1..<nat n_ma]
           (\<lambda>i repr.
              bindE (rd repr (int i - 1)) (\<lambda>a.
              bindE (rd x (int i + order)) (\<lambda>b.
              bindE (rd x (int i - 1)) (\<lambda>c.
              wr repr (int i)
                (dsub (dadd a (ddiv b (dbl_of_int order))) (ddiv c (dbl_of_int order)))))))
           repr))))"

subsection \<open>maxC\<close>

text \<open>
  \<open>*std::max_element(x.begin(), x.end())\<close>: the scan keeps the element reached so far and
  replaces it by a later one when it is \<open><\<close> that one. On the empty vector the source
  dereferences \<open>x.end()\<close>, an access out of range.
\<close>

fun max_from :: "dbl \<Rightarrow> dbl list \<Rightarrow> dbl" where
  "max_from m [] = m"
| "max_from m (v # vs) = max_from (if dless m v then v else m) vs"

definition maxC :: "dbl list \<Rightarrow> fault + dbl" where
  "maxC x = (case x of [] \<Rightarrow> Inl OutOfBounds | v # vs \<Rightarrow> Inr (max_from v vs))"

text \<open>
  An aggregation function given to \<open>repr_paa\<close> or \<open>repr_seas_profile\<close> is an R function
  from a vector to a number. \<open>max_agg\<close> is one that calls \<open>maxC\<close>, and answers NaN where
  \<open>maxC\<close> has no result.
\<close>

definition max_agg :: "dbl list \<Rightarrow> dbl" where
  "max_agg x = (case maxC x of Inl e \<Rightarrow> NaN | Inr m \<Rightarrow> m)"

subsection \<open>meanC\<close>

text \<open>The loop adds \<open>x[0]\<close>, \<dots>, \<open>x[n - 1]\<close> to \<open>total\<close> in turn: a left fold from 0.\<close>

definition meanC :: "dbl list \<Rightarrow> dbl" where
  "meanC x = (let n = int (length x); total = foldl dadd (Fin 0) x in ddiv total (dbl_of_int n))"

subsection \<open>medianC\<close>








section \<open>representations.cpp\<close>

subsection \<open>clipping\<close>

text \<open>\<open>std::accumulate(first, last, 0.0)\<close> is the left fold of \<open>+\<close> from \<open>0.0\<close>.\<close>

definition accumulate :: "dbl list \<Rightarrow> dbl" where
  "accumulate xs = foldl dadd (Fin 0) xs"

definition clipping :: "dbl list \<Rightarrow> fault + int list" where
  "clipping x =
     (let n = int (length x)
      in bindE (alloc n (0::int)) (\<lambda>bitLevel.
         let x_mean = ddiv (accumulate x) (dbl_of_int n)
         in for_loop [0..<nat n]
              (\<lambda>i bitLevel.
                 bindE (rd x (int i)) (\<lambda>v.
                 if dless x_mean v then wr bitLevel (int i) 1 else wr bitLevel (int i) 0))
              bitLevel))"

subsection \<open>trending\<close>

definition trending :: "dbl list \<Rightarrow> fault + int list" where
  "trending x =
     (let n = int (length x)
      in bindE (alloc (n - 1) (0::int)) (\<lambda>repr.
         for_loop [0..<nat (n - 1)]
           (\<lambda>i repr.
              bindE (rd x (int i)) (\<lambda>a.
              bindE (rd x (int i + 1)) (\<lambda>b.
              if dless (dsub a b) (Fin 0) then wr repr (int i) 1 else wr repr (int i) 0)))
           repr))"

subsection \<open>The run lengths of the zeros and of the ones\<close>

text \<open>
  \<open>repr_feaclip\<close> and \<open>repr_featrend\<close> hold the same code, up to the names of the two
  counters (\<open>j\<close> and \<open>k\<close> in the first, \<open>z\<close> and \<open>o\<close> in the second): a first loop counts the
  runs whose value is 0 and the others, starting from the current values of the counters;
  the vectors \<open>zeros\<close> and \<open>ones\<close> are made of these sizes; the counters are set to 0; a
  second loop copies the run lengths. \<open>split_runs\<close> is that code, from the counters before
  it to the two vectors and the counters after it.
\<close>

definition split_runs ::
  "int list \<Rightarrow> int list \<Rightarrow> int \<Rightarrow> int \<Rightarrow> int \<Rightarrow> fault + int list \<times> int list \<times> int \<times> int"
where
  "split_runs vals lens N j0 k0 =
     bindE (for_loop [0..<nat N]
              (\<lambda>i (j, k).
                 bindE (rd vals (int i)) (\<lambda>v.
                 if v = 0 then Inr (j + 1, k) else Inr (j, k + 1)))
              (j0, k0)) (\<lambda>(j, k).
     bindE (alloc j (0::int)) (\<lambda>zeros.
     bindE (alloc k (0::int)) (\<lambda>ones.
     for_loop [0..<nat N]
       (\<lambda>i (zeros, ones, j, k).
          bindE (rd vals (int i)) (\<lambda>v.
          bindE (rd lens (int i)) (\<lambda>l.
          if v = 0
          then bindE (wr zeros j l) (\<lambda>zeros. Inr (zeros, ones, j + 1, k))
          else bindE (wr ones k l) (\<lambda>ones. Inr (zeros, ones, j, k + 1)))))
       (zeros, ones, 0, 0))))"

text \<open>\<open>*std::max_element(first, last)\<close> on a vector of \<open>int\<close>; the empty range has no element.\<close>

fun max_element :: "int list \<Rightarrow> fault + int" where
  "max_element [] = Inl OutOfBounds"
| "max_element (v # vs) = Inr (fold max vs v)"

subsection \<open>repr\_feaclip\<close>

definition repr_feaclip :: "dbl list \<Rightarrow> fault + dbl list" where
  "repr_feaclip x =
     bindE (alloc 8 (Fin 0)) (\<lambda>representation.
     bindE (clipping x) (\<lambda>bits.
     bindE (rleC (map dbl_of_int bits)) (\<lambda>encode.
     let lens = lengths encode;
         vals = map int_of_dbl (values encode);
         N = int (length vals)
     in bindE (wr representation 3 (dbl_of_int (N - 1))) (\<lambda>representation.
        bindE (rd vals 0) (\<lambda>v.
        bindE (if v = 0 then bindE (rd lens 0) (\<lambda>l. wr representation 4 (dbl_of_int l))
               else wr representation 4 (Fin 0)) (\<lambda>representation.
        bindE (rd vals 0) (\<lambda>v.
        bindE (if v = 1 then bindE (rd lens 0) (\<lambda>l. wr representation 6 (dbl_of_int l))
               else wr representation 6 (Fin 0)) (\<lambda>representation.
        bindE (rd vals (N - 1)) (\<lambda>v.
        bindE (if v = 0 then bindE (rd lens (N - 1)) (\<lambda>l. wr representation 5 (dbl_of_int l))
               else wr representation 5 (Fin 0)) (\<lambda>representation.
        bindE (rd vals (N - 1)) (\<lambda>v.
        bindE (if v = 1 then bindE (rd lens (N - 1)) (\<lambda>l. wr representation 7 (dbl_of_int l))
               else wr representation 7 (Fin 0)) (\<lambda>representation.
        bindE (split_runs vals lens N 0 0) (\<lambda>(zeros, ones, j, k).
        bindE (if length ones = 0
               then bindE (wr representation 0 (Fin 0)) (\<lambda>representation.
                    wr representation 1 (Fin 0))
               else bindE (max_element ones) (\<lambda>m.
                    bindE (wr representation 0 (dbl_of_int m)) (\<lambda>representation.
                    wr representation 1 (accumulate (map dbl_of_int ones))))) (\<lambda>representation.
        if length zeros = 0 then wr representation 2 (Fin 0)
        else bindE (max_element zeros) (\<lambda>m.
             wr representation 2 (dbl_of_int m))))))))))))))))"

subsection \<open>repr\_featrend\<close>

text \<open>
  The aggregation function is applied to a \<open>std::vector<int>\<close>. The counters \<open>o\<close> and \<open>z\<close>
  of the source (here \<open>n_o\<close> and \<open>n_z\<close>) are declared before the loop over the pieces and so
  belong to its state.
\<close>

text \<open>One pass of the body of the loop over the pieces, for piece \<open>j\<close>.\<close>

definition featrend_piece ::
  "dbl list \<Rightarrow> (int list \<Rightarrow> dbl) \<Rightarrow> int \<Rightarrow> nat \<Rightarrow>
   dbl list \<times> int list \<times> int \<times> int \<Rightarrow> fault + dbl list \<times> int list \<times> int \<times> int"
where
  "featrend_piece sma_x func n_piece j = (\<lambda>(repr, x_ind, n_o, n_z).
     bindE (for_loop [0..<nat n_piece]
              (\<lambda>i x_ind. wr x_ind (int i) (int i + n_piece * int j)) x_ind) (\<lambda>x_ind.
     bindE (subset_at sma_x x_ind) (\<lambda>piece.
     bindE (trending piece) (\<lambda>bits.
     bindE (rleC (map dbl_of_int bits)) (\<lambda>encode.
     let lens = lengths encode;
         vals = map int_of_dbl (values encode);
         N = int (length vals)
     in bindE (split_runs vals lens N n_z n_o) (\<lambda>(zeros, ones, n_z, n_o).
        bindE (if length ones = 0 then wr repr (int j * 2) (Fin 0)
               else wr repr (int j * 2) (func ones)) (\<lambda>repr.
        bindE (if length zeros = 0 then wr repr (int j * 2 + 1) (Fin 0)
               else wr repr (int j * 2 + 1) (func zeros)) (\<lambda>repr.
        Inr (repr, x_ind, n_o, n_z)))))))))"

definition repr_featrend :: "dbl list \<Rightarrow> (int list \<Rightarrow> dbl) \<Rightarrow> int \<Rightarrow> int \<Rightarrow> fault + dbl list" where
  "repr_featrend x func pieces order =
     bindE (repr_sma x order) (\<lambda>sma_x.
     bindE (alloc (pieces * 2) (Fin 0)) (\<lambda>repr.
     let n = int (length sma_x)
     in if pieces = 0 then Inl IntDivByZero
        else
          let n_piece = n sdiv pieces
          in bindE (alloc n_piece (0::int)) (\<lambda>x_ind.
             bindE (for_loop [0..<nat pieces] (featrend_piece sma_x func n_piece)
                      (repr, x_ind, 0, 0))
               (\<lambda>(repr, x_ind, n_o, n_z). Inr repr))))"

subsection \<open>repr\_paa\<close>

text \<open>
  The aggregation function \<open>func\<close> is an R function handed in by the caller; it is a
  parameter of the model, from the vector it is given to the \<open>double\<close> that
  \<open>Rcpp::as<double>\<close> reads from its result. The integer division and remainder of C++
  truncate toward zero (\<open>sdiv\<close>, \<open>smod\<close>).

  One pass of the body of the loops over the full pieces: the indices of piece \<open>i\<close> are
  written to \<open>sub_x\<close>, and \<open>repr[i]\<close> is \<open>func\<close> of the elements of \<open>x\<close> at them.
\<close>

definition paa_piece ::
  "dbl list \<Rightarrow> int \<Rightarrow> (dbl list \<Rightarrow> dbl) \<Rightarrow> nat \<Rightarrow> dbl list \<times> int list \<Rightarrow> fault + dbl list \<times> int list"
where
  "paa_piece x q func i = (\<lambda>(repr, sub_x).
     bindE (for_loop [0..<nat q] (\<lambda>j sub_x. wr sub_x (int j) (int i * q + int j)) sub_x) (\<lambda>sub_x.
     bindE (subset_at x sub_x) (\<lambda>piece.
     bindE (wr repr (int i) (func piece)) (\<lambda>repr. Inr (repr, sub_x)))))"

definition repr_paa :: "dbl list \<Rightarrow> int \<Rightarrow> (dbl list \<Rightarrow> dbl) \<Rightarrow> fault + dbl list" where
  "repr_paa x q func =
     (let n = int (length x)
      in if q = 0 then Inl IntDivByZero
         else
           let remain = n smod q;
               remain_count = n - (n sdiv q) * q;
               n_paa = (if remain \<noteq> 0 then n sdiv q + 1 else n sdiv q)
           in bindE (alloc n_paa (Fin 0)) (\<lambda>repr.
              bindE (alloc q (0::int)) (\<lambda>sub_x.
              bindE (alloc remain_count (0::int)) (\<lambda>sub_rem.
              if remain = 0
              then bindE (for_loop [0..<nat n_paa] (paa_piece x q func) (repr, sub_x))
                     (\<lambda>(repr, sub_x). Inr repr)
              else bindE (for_loop [0..<nat (n_paa - 1)] (paa_piece x q func) (repr, sub_x))
                     (\<lambda>(repr, sub_x).
                   bindE (for_loop [0..<nat remain_count]
                            (\<lambda>j sub_rem. wr sub_rem (int j) ((n_paa - 1) * q + int j)) sub_rem)
                     (\<lambda>sub_rem.
                   bindE (subset_at x sub_rem) (\<lambda>piece.
                   wr repr (n_paa - 1) (func piece))))))))"

subsection \<open>repr\_seas\_profile\<close>

definition repr_seas_profile :: "dbl list \<Rightarrow> int \<Rightarrow> (dbl list \<Rightarrow> dbl) \<Rightarrow> fault + dbl list" where
  "repr_seas_profile x freq func =
     bindE (alloc freq (Fin 0)) (\<lambda>repr.
     let n = int (length x)
     in if freq = 0 then Inl IntDivByZero
        else
          let freq_times = n sdiv freq
          in bindE (alloc freq_times (0::int)) (\<lambda>ind.
             bindE (for_loop [0..<nat freq]
                      (\<lambda>i (repr, ind).
                         bindE (for_loop [0..<nat freq_times]
                                  (\<lambda>j ind. wr ind (int j) (int j * freq + int i)) ind) (\<lambda>ind.
                         bindE (subset_at x ind) (\<lambda>phase.
                         bindE (wr repr (int i) (func phase)) (\<lambda>repr. Inr (repr, ind)))))
                      (repr, ind))
               (\<lambda>(repr, ind). Inr repr)))"

section \<open>Notions of the specification\<close>

text \<open>
  Each run's value repeated its length times, concatenated. Follows the words of the
  specification (it is not code of the repository).
\<close>

definition expand_runs :: "rle_list \<Rightarrow> dbl list" where
  "expand_runs r = concat (map2 (\<lambda>v l. replicate (nat l) v) (values r) (lengths r))"

text \<open>
  The runs of a run-length encoding as pairs of a value and a length, the values read as
  integers (as \<open>IntegerVector values = encode["values"]\<close> does), and the lengths of the runs
  that have a given value. They follow the words of the specification (they are not code
  of the repository), as does \<open>level_features\<close>, the vector of eight features of the
  specification.
\<close>

definition runs_of :: "rle_list \<Rightarrow> (int \<times> int) list" where
  "runs_of r = zip (map int_of_dbl (values r)) (lengths r)"

definition lengths_with :: "int \<Rightarrow> (int \<times> int) list \<Rightarrow> int list" where
  "lengths_with b runs = map snd (filter (\<lambda>(v, l). v = b) runs)"

definition max_or_zero :: "int list \<Rightarrow> int" where
  "max_or_zero ls = (if ls = [] then 0 else Max (set ls))"

definition level_features :: "(int \<times> int) list \<Rightarrow> dbl list" where
  "level_features runs =
     map dbl_of_int
       [max_or_zero (lengths_with 1 runs),
        sum_list (lengths_with 1 runs),
        max_or_zero (lengths_with 0 runs),
        int (length runs) - 1,
        (if fst (hd runs) = 0 then snd (hd runs) else 0),
        (if fst (last runs) = 0 then snd (last runs) else 0),
        (if fst (hd runs) = 1 then snd (hd runs) else 0),
        (if fst (last runs) = 1 then snd (last runs) else 0)]"

text \<open>
  The trend features as the specification states them, for a smoothed sequence \<open>s\<close> cut in
  \<open>pieces\<close> blocks of \<open>length s div pieces\<close> elements: the runs of block \<open>j\<close> are those of
  \<open>rleC\<close> on \<open>trending\<close> of the block, and the two features of the block are the aggregate
  of the lengths of its runs of ones and the aggregate of the lengths of its runs of zeros,
  each 0 when there is no such run. They follow the words of the specification (they are
  not code of the repository).
\<close>

definition piece_runs :: "dbl list \<Rightarrow> nat \<Rightarrow> nat \<Rightarrow> (int \<times> int) list" where
  "piece_runs s np j =
     (case bindE (trending (take np (drop (j * np) s))) (\<lambda>bits. rleC (map dbl_of_int bits)) of
        Inl e \<Rightarrow> []
      | Inr r \<Rightarrow> runs_of r)"

definition agg_or_zero :: "(int list \<Rightarrow> dbl) \<Rightarrow> int list \<Rightarrow> dbl" where
  "agg_or_zero agg ls = (if ls = [] then Fin 0 else agg ls)"

definition trend_features :: "dbl list \<Rightarrow> (int list \<Rightarrow> dbl) \<Rightarrow> nat \<Rightarrow> dbl list" where
  "trend_features s agg pieces =
     concat (map (\<lambda>j. [agg_or_zero agg (lengths_with 1 (piece_runs s (length s div pieces) j)),
                       agg_or_zero agg (lengths_with 0 (piece_runs s (length s div pieces) j))])
               [0..<pieces])"

text \<open>
  The features that \<open>repr_featrend\<close> computes, in closed form: from the second block on,
  each of the two vectors given to the aggregation function ends in as many zeros as the
  block before had runs of that value.
\<close>

definition carried :: "int \<Rightarrow> dbl list \<Rightarrow> nat \<Rightarrow> nat \<Rightarrow> nat" where
  "carried b s np j = (if j = 0 then 0 else length (lengths_with b (piece_runs s np (j - 1))))"

definition padded_features :: "dbl list \<Rightarrow> (int list \<Rightarrow> dbl) \<Rightarrow> nat \<Rightarrow> dbl list" where
  "padded_features s agg pieces =
     concat (map (\<lambda>j. [agg_or_zero agg
                         (lengths_with 1 (piece_runs s (length s div pieces) j) @
                          replicate (carried 1 s (length s div pieces) j) 0),
                       agg_or_zero agg
                         (lengths_with 0 (piece_runs s (length s div pieces) j) @
                          replicate (carried 0 s (length s div pieces) j) 0)])
               [0..<pieces])"

text \<open>
  The mean of the window of \<open>p\<close> elements that starts at index \<open>i\<close>, recomputed directly.
  Follows the words of the specification (it is not code of the repository).
\<close>

definition window_mean :: "dbl list \<Rightarrow> int \<Rightarrow> nat \<Rightarrow> dbl" where
  "window_mean x p i = ddiv (accumulate (take (nat p) (drop i x))) (dbl_of_int p)"

section \<open>Basic facts\<close>

text \<open>The threshold as a numeral, for evaluation.\<close>

lemma dbl_ovf_code [code]:
  "dbl_ovf =
     179769313486231580793728971405303415079934132710037826936173778980444968292764750946649017977587207096330286416692887910946555547851940402630657488671505820681908902000708383676273854845817711531764475730270069855571366959622842914819860834936475292719074168444365510704342711559699508093042880177904174497792"
  by (simp add: dbl_ovf_def)

lemma ovf_Fin: "- dbl_ovf < r \<Longrightarrow> r < dbl_ovf \<Longrightarrow> ovf r = Fin r"
  by (simp add: ovf_def)


lemma bindE_Inr [simp]: "bindE (Inr v) f = f v"
  by (simp add: bindE_def)

lemma bindE_Inl [simp]: "bindE (Inl e) f = Inl e"
  by (simp add: bindE_def)

lemma alloc_neg: "n < 0 \<Longrightarrow> alloc n v = Inl NegativeLength"
  by (simp add: alloc_def)

lemma for_loop_upt_inv:
  assumes "I a s" and "a \<le> b"
    and step: "\<And>i s. a \<le> i \<Longrightarrow> i < b \<Longrightarrow> I i s \<Longrightarrow> \<exists>s'. body i s = Inr s' \<and> I (Suc i) s'"
  shows "\<exists>s'. for_loop [a..<b] body s = Inr s' \<and> I b s'"
  using assms
proof (induction "b - a" arbitrary: a s)
  case 0
  then show ?case by simp
next
  case (Suc k)
  then have lt: "a < b" by simp
  from Suc.prems(3)[of a s] Suc.prems(1) lt obtain s1 where s1: "body a s = Inr s1" "I (Suc a) s1"
    by auto
  have "\<exists>s'. for_loop [Suc a..<b] body s1 = Inr s' \<and> I b s'"
  proof (rule Suc.hyps(1))
    show "k = b - Suc a" using Suc.hyps(2) by simp
    show "I (Suc a) s1" by (rule s1)
    show "Suc a \<le> b" using lt by simp
    show "\<And>i s. Suc a \<le> i \<Longrightarrow> i < b \<Longrightarrow> I i s \<Longrightarrow> \<exists>s'. body i s = Inr s' \<and> I (Suc i) s'"
      using Suc.prems(3) by simp
  qed
  then show ?case using lt s1 by (simp add: upt_conv_Cons)
qed

lemma for_loop_first_fault:
  "a < b \<Longrightarrow> body a s = Inl e \<Longrightarrow> for_loop [a..<b] body s = Inl e"
  by (simp add: upt_conv_Cons)

lemma wrap32_id: "- 2147483648 \<le> k \<Longrightarrow> k < 2147483648 \<Longrightarrow> wrap32 k = k"
  by (simp add: wrap32_def)

lemma bindE_not_fault:
  assumes "m \<noteq> Inl e" and "\<And>v. f v \<noteq> Inl e"
  shows "bindE m f \<noteq> Inl e"
  using assms by (cases m) (simp_all add: bindE_def)

lemma for_loop_not_fault:
  assumes "\<And>i s. body i s \<noteq> Inl e"
  shows "for_loop is body s \<noteq> Inl e"
proof (induction "is" arbitrary: s)
  case Nil
  then show ?case by simp
next
  case (Cons i "is")
  show ?case unfolding for_loop.simps
    by (rule bindE_not_fault) (rule assms, rule Cons.IH)
qed

lemma rd_not_invalid: "rd xs i \<noteq> Inl InvalidArgument"
  by (simp add: rd_def)

lemma wr_not_invalid: "wr xs i v \<noteq> Inl InvalidArgument"
  by (simp add: wr_def)

lemma alloc_not_invalid: "alloc n v \<noteq> Inl InvalidArgument"
  by (simp add: alloc_def)

lemma repr_sma_not_invalid: "repr_sma x p \<noteq> Inl InvalidArgument"
  unfolding repr_sma_def Let_def
  by (intro bindE_not_fault for_loop_not_fault rd_not_invalid wr_not_invalid alloc_not_invalid)
    simp_all

lemma repr_sma_too_long:
  assumes "int (length x) < p" and "p \<le> 2147483647"
  shows "repr_sma x p = Inl NegativeLength"
proof -
  have "wrap32 (int (length x) - p) = int (length x) - p"
    using assms by (intro wrap32_id) simp_all
  then show ?thesis using assms by (simp add: repr_sma_def Let_def alloc_neg)
qed

lemma sum_loop_ok:
  assumes "p \<le> int (length x)"
  shows "\<exists>s. for_loop [0..<nat p] (\<lambda>i sum. bindE (rd x (int i)) (\<lambda>v. Inr (dadd sum v))) (Fin 0) = Inr s"
proof -
  have "\<exists>s'. for_loop [0..<nat p] (\<lambda>i sum. bindE (rd x (int i)) (\<lambda>v. Inr (dadd sum v))) (Fin 0) = Inr s' \<and> True"
  proof (rule for_loop_upt_inv[where I="\<lambda>_ _. True"])
    fix i s assume "i < nat p"
    then have "rd x (int i) = Inr (x ! i)" using assms by (simp add: rd_def)
    then show "\<exists>s'. bindE (rd x (int i)) (\<lambda>v. Inr (dadd s v)) = Inr s' \<and> True" by simp
  qed simp_all
  then show ?thesis by simp
qed

lemma main_loop_ok:
  assumes "- 1 \<le> p" and "p < int (length x)" and "length r = nat (int (length x) - p)"
  shows "\<exists>r'. for_loop [1..<nat (int (length x) - p)]
           (\<lambda>i repr.
              bindE (rd repr (int i - 1)) (\<lambda>a.
              bindE (rd x (int i + p)) (\<lambda>b.
              bindE (rd x (int i - 1)) (\<lambda>c.
              wr repr (int i)
                (dsub (dadd a (ddiv b (dbl_of_int p))) (ddiv c (dbl_of_int p)))))))
           r = Inr r' \<and> length r' = nat (int (length x) - p)"
proof (rule for_loop_upt_inv[where I="\<lambda>_ r. length r = nat (int (length x) - p)"])
  show "length r = nat (int (length x) - p)" by (rule assms)
  show "1 \<le> nat (int (length x) - p)" using assms by simp
next
  fix i and s :: "dbl list"
  assume i: "1 \<le> i" "i < nat (int (length x) - p)" and len: "length s = nat (int (length x) - p)"
  have "rd s (int i - 1) = Inr (s ! nat (int i - 1))" using i len assms by (auto simp add: rd_def)
  moreover have "rd x (int i + p) = Inr (x ! nat (int i + p))" using i assms by (auto simp add: rd_def)
  moreover have "rd x (int i - 1) = Inr (x ! nat (int i - 1))" using i assms by (auto simp add: rd_def)
  moreover have "\<And>v. wr s (int i) v = Inr (s[i := v])" using i len assms by (auto simp add: wr_def)
  ultimately show "\<exists>s'. bindE (rd s (int i - 1)) (\<lambda>a.
              bindE (rd x (int i + p)) (\<lambda>b.
              bindE (rd x (int i - 1)) (\<lambda>c.
              wr s (int i)
                (dsub (dadd a (ddiv b (dbl_of_int p))) (ddiv c (dbl_of_int p)))))) = Inr s' \<and> length s' = nat (int (length x) - p)"
    using len by simp
qed

lemma repr_sma_returns:
  assumes "- 1 \<le> p" and "p < int (length x)" and "int (length x) < 2147483647"
  shows "\<exists>ys. repr_sma x p = Inr ys \<and> int (length ys) = int (length x) - p"
proof -
  have w: "wrap32 (int (length x) - p) = int (length x) - p"
    using assms by (intro wrap32_id) simp_all
  obtain s where s: "for_loop [0..<nat p] (\<lambda>i sum. bindE (rd x (int i)) (\<lambda>v. Inr (dadd sum v))) (Fin 0) = Inr s"
    using sum_loop_ok[of p x] assms by auto
  let ?r0 = "(replicate (nat (int (length x) - p)) (Fin 0))[0 := ddiv s (dbl_of_int p)]"
  have "length ?r0 = nat (int (length x) - p)" by simp
  from main_loop_ok[OF assms(1,2) this] obtain r' where r': "for_loop [1..<nat (int (length x) - p)]
           (\<lambda>i repr.
              bindE (rd repr (int i - 1)) (\<lambda>a.
              bindE (rd x (int i + p)) (\<lambda>b.
              bindE (rd x (int i - 1)) (\<lambda>c.
              wr repr (int i)
                (dsub (dadd a (ddiv b (dbl_of_int p))) (ddiv c (dbl_of_int p)))))))
           ?r0 = Inr r'" "length r' = nat (int (length x) - p)" by blast
  show ?thesis using assms s r'
    by (simp add: repr_sma_def Let_def alloc_def wr_def w)
qed

section \<open>repr\_sma: the scenario and the missing validation\<close>

lemma repr_sma_scenario_value:
  "repr_sma ([Fin 1, Fin 2, Fin 3, Fin 2, Fin 1, Fin 2, Fin 3, Fin 4, Fin 3, Fin 2]) 3 =
     Inr [Fin 2, Fin 2, Fin 2, Fin 2, Fin (8 / 3), Fin (10 / 3), Fin (10 / 3)]"
  by code_simp

lemma window_means_scenario:
  "map (window_mean ([Fin 1, Fin 2, Fin 3, Fin 2, Fin 1, Fin 2, Fin 3, Fin 4, Fin 3, Fin 2]) 3) [0, 1, 2, 3, 4, 5, 6] =
     [Fin 2, Fin (7 / 3), Fin 2, Fin (5 / 3), Fin 2, Fin 3, Fin (10 / 3)]"
  by code_simp

text \<open>
  C4, as the specification states it, fails: on \<open>x = [1,2,3,2,1,2,3,4,3,2]\<close> with order 3 the
  code does not return \<open>[2, 2, 2, 7/3, 3, 3, 3]\<close>; its element 3 is 2 and its elements 4 to 6
  are 8/3, 10/3 and 10/3.
\<close>

theorem repr_sma_scenario_counterexample:
  "repr_sma ([Fin 1, Fin 2, Fin 3, Fin 2, Fin 1, Fin 2, Fin 3, Fin 4, Fin 3, Fin 2]) 3 =
     Inr [Fin 2, Fin 2, Fin 2, Fin 2, Fin (8 / 3), Fin (10 / 3), Fin (10 / 3)] \<and>
   repr_sma ([Fin 1, Fin 2, Fin 3, Fin 2, Fin 1, Fin 2, Fin 3, Fin 4, Fin 3, Fin 2]) 3 \<noteq>
     Inr [Fin 2, Fin 2, Fin 2, Fin (7 / 3), Fin 3, Fin 3, Fin 3]"
  by (simp add: repr_sma_scenario_value)

text \<open>
  C4, amended: on \<open>x = [1,2,3,2,1,2,3,4,3,2]\<close> with order 3, \<open>repr_sma\<close> returns a sequence
  of 7 elements (the length of \<open>x\<close> less the order) whose first element is 2, the directly
  recomputed mean of the first window \<open>x[0..3)\<close>.
\<close>

theorem repr_sma_scenario:
  "\<exists>ys. repr_sma ([Fin 1, Fin 2, Fin 3, Fin 2, Fin 1, Fin 2, Fin 3, Fin 4, Fin 3, Fin 2]) 3 = Inr ys \<and>
        length ys = 7 \<and>
        int (length ys) = int (length ([Fin 1, Fin 2, Fin 3, Fin 2, Fin 1, Fin 2, Fin 3, Fin 4, Fin 3, Fin 2])) - 3 \<and>
        ys ! 0 = Fin 2 \<and>
        ys ! 0 = window_mean ([Fin 1, Fin 2, Fin 3, Fin 2, Fin 1, Fin 2, Fin 3, Fin 4, Fin 3, Fin 2]) 3 0"
proof -
  have "window_mean ([Fin 1, Fin 2, Fin 3, Fin 2, Fin 1, Fin 2, Fin 3, Fin 4, Fin 3, Fin 2]) 3 0 = Fin 2"
    by code_simp
  then show ?thesis
    by (simp add: repr_sma_scenario_value)
qed

lemma repr_sma_order_zero_value: "repr_sma [Fin 1, Fin 2] 0 = Inr [NaN, NaN]"
  by code_simp

lemma repr_sma_order_minus_one_value: "repr_sma [Fin 1, Fin 2] (- 1) = Inr [NZero, Fin 0, Fin 0]"
  by code_simp

text \<open>
  At the least C \<open>int\<close> the difference \<open>n - order\<close> wraps around to a negative number, and
  the call ends in the request for a vector of negative length.
\<close>

lemma repr_sma_order_int_min: "repr_sma [Fin 1, Fin 2] (- 2147483648) = Inl NegativeLength"
  by code_simp

text \<open>
  C8, as the specification states it, fails: with order 0 (which is below 1) the code
  returns a sequence, of two NaN (the quotient \<open>0 / 0\<close>), and with order \<open>- 1\<close> it returns
  a sequence of three zeros. Neither call fails with \<open>InvalidArgument\<close>.
\<close>

theorem repr_sma_invalid_argument_counterexample:
  "(0::int) < 1 \<and>
   repr_sma [Fin 1, Fin 2] 0 = Inr [NaN, NaN] \<and>
   repr_sma [Fin 1, Fin 2] 0 \<noteq> Inl InvalidArgument \<and>
   (- 1::int) < 1 \<and>
   repr_sma [Fin 1, Fin 2] (- 1) = Inr [NZero, Fin 0, Fin 0] \<and>
   repr_sma [Fin 1, Fin 2] (- 1) \<noteq> Inl InvalidArgument"
  by (simp add: repr_sma_order_zero_value repr_sma_order_minus_one_value)

text \<open>
  C8, amended: \<open>repr_sma\<close> validates nothing and never fails with \<open>InvalidArgument\<close>. For a
  sequence of length \<open>n\<close> (that fits a C \<open>int\<close>) and an order \<open>p\<close> with \<open>- 1 \<le> p < n\<close>, so
  also for the orders 0 and \<open>- 1\<close> that are below 1, it returns a sequence of \<open>n - p\<close>
  elements. For an order \<open>p > n\<close> (that fits a C \<open>int\<close>) it ends, with no result, in the
  error of R for a vector of negative length. Nothing is stated of the other orders,
  \<open>p = n\<close> and \<open>p < - 1\<close>, beyond the absence of \<open>InvalidArgument\<close>.
\<close>

theorem repr_sma_no_validation:
  "repr_sma x p \<noteq> Inl InvalidArgument \<and>
   (- 1 \<le> p \<and> p < int (length x) \<and> int (length x) < 2147483647 \<longrightarrow>
      (\<exists>ys. repr_sma x p = Inr ys \<and> int (length ys) = int (length x) - p)) \<and>
   (int (length x) < p \<and> p \<le> 2147483647 \<longrightarrow> repr_sma x p = Inl NegativeLength)"
  using repr_sma_not_invalid[of x p] repr_sma_returns[of p x] repr_sma_too_long[of x p]
  by blast

theorem repr_sma_no_validation_witness:
  "(\<exists>ys. repr_sma [Fin 1, Fin 2] 0 = Inr ys \<and> int (length ys) = 2) \<and>
   (\<exists>ys. repr_sma [Fin 1, Fin 2] (- 1) = Inr ys \<and> int (length ys) = 3) \<and>
   (\<exists>ys. repr_sma [Fin 1, Fin 2] 1 = Inr ys \<and> int (length ys) = 1) \<and>
   repr_sma [Fin 1, Fin 2] 2 \<noteq> Inl InvalidArgument \<and>
   repr_sma [Fin 1, Fin 2] 3 = Inl NegativeLength"
  using repr_sma_no_validation[of "[Fin 1, Fin 2]" 0]
    repr_sma_no_validation[of "[Fin 1, Fin 2]" "- 1"]
    repr_sma_no_validation[of "[Fin 1, Fin 2]" 1]
    repr_sma_no_validation[of "[Fin 1, Fin 2]" 2]
    repr_sma_no_validation[of "[Fin 1, Fin 2]" 3]
  by simp

section \<open>clipping\<close>

lemma clipping_eq:
  "clipping x =
     Inr (map (\<lambda>v. if dless (ddiv (accumulate x) (dbl_of_int (int (length x)))) v then 1 else 0) x)"
proof -
  let ?m = "ddiv (accumulate x) (dbl_of_int (int (length x)))"
  let ?f = "\<lambda>v. if dless ?m v then 1 else (0::int)"
  let ?body = "\<lambda>i bitLevel. bindE (rd x (int i)) (\<lambda>v.
                 if dless ?m v then wr bitLevel (int i) 1 else wr bitLevel (int i) 0)"
  have "\<exists>b. for_loop [0..<length x] ?body (replicate (length x) 0) = Inr b \<and>
          (length b = length x \<and> take (length x) b = map ?f (take (length x) x))"
  proof (rule for_loop_upt_inv[where I="\<lambda>i b. length b = length x \<and> take i b = map ?f (take i x)"])
    fix i and s :: "int list"
    assume i: "i < length x" and inv: "length s = length x \<and> take i s = map ?f (take i x)"
    have rdx: "rd x (int i) = Inr (x ! i)" using i by (simp add: rd_def)
    have wrs: "\<And>v. wr s (int i) v = Inr (s[i := v])" using i inv by (simp add: wr_def)
    have "take (Suc i) (s[i := ?f (x ! i)]) = map ?f (take (Suc i) x)"
      using i inv by (simp add: take_Suc_conv_app_nth)
    then show "\<exists>s'. ?body i s = Inr s' \<and>
       (length s' = length x \<and> take (Suc i) s' = map ?f (take (Suc i) x))"
      using rdx wrs inv by auto
  qed simp_all
  then show ?thesis
    by (auto simp add: clipping_def Let_def alloc_def)
qed

text \<open>
  C7, as the specification states it, fails: on \<open>x = [1,3,2,5,4]\<close> the code does not return
  \<open>[0,1,0,1,1]\<close>; the element 3 equals the mean and is not above it.
\<close>

theorem clipping_scenario_counterexample:
  "clipping ([Fin 1, Fin 3, Fin 2, Fin 5, Fin 4]) = Inr [0, 0, 0, 1, 1] \<and>
   clipping ([Fin 1, Fin 3, Fin 2, Fin 5, Fin 4]) \<noteq> Inr [0, 1, 0, 1, 1]"
proof -
  have "clipping ([Fin 1, Fin 3, Fin 2, Fin 5, Fin 4]) = Inr [0, 0, 0, 1, 1]"
    by code_simp
  then show ?thesis by simp
qed

text \<open>
  C7, amended: on \<open>x = [1,3,2,5,4]\<close>, whose mean is 3, \<open>clipping\<close> returns \<open>[0,0,0,1,1]\<close>; on
  every input the output at \<open>i\<close> is 1 if \<open>x[i]\<close> is strictly above the mean of the whole
  input, which is computed once, and 0 otherwise.
\<close>

theorem clipping_scenario:
  "ddiv (accumulate ([Fin 1, Fin 3, Fin 2, Fin 5, Fin 4])) (dbl_of_int (int (length [Fin 1, Fin 3, Fin 2, Fin 5, Fin 4]))) = Fin 3 \<and>
   clipping ([Fin 1, Fin 3, Fin 2, Fin 5, Fin 4]) = Inr [0, 0, 0, 1, 1] \<and>
   (\<forall>x. clipping x =
      Inr (map (\<lambda>v. if dless (ddiv (accumulate x) (dbl_of_int (int (length x)))) v then 1 else 0) x))"
proof -
  have "ddiv (accumulate ([Fin 1, Fin 3, Fin 2, Fin 5, Fin 4])) (dbl_of_int (int (length [Fin 1, Fin 3, Fin 2, Fin 5, Fin 4]))) = Fin 3"
    by code_simp
  moreover have "clipping ([Fin 1, Fin 3, Fin 2, Fin 5, Fin 4]) = Inr [0, 0, 0, 1, 1]"
    by code_simp
  ultimately show ?thesis
    using clipping_eq by blast
qed

section \<open>rleC\<close>

lemma rleC_empty: "rleC [] = Inl OutOfBounds"
  by (simp add: rleC_def rd_def)

lemma rleC_total:
  assumes "x \<noteq> []"
  shows "\<exists>r. rleC x = Inr r"
proof -
  have rd0: "rd x 0 = Inr (x ! 0)" using assms by (simp add: rd_def)
  have "\<exists>s'. for_loop [1..<length x] (\<lambda>k (i, prev, lens, vals).
                 bindE (rd x (int k)) (\<lambda>v.
                 if deq prev v
                 then bindE (rd lens i) (\<lambda>l.
                      bindE (wr lens i (l + 1)) (\<lambda>lens'. Inr (i, prev, lens', vals)))
                 else Inr (i + 1, v, lens @ [1], vals @ [v]))) (0, x ! 0, [1::int], [x ! 0]) = Inr s' \<and>
          (case s' of (i, prev, lens, vals) \<Rightarrow> 0 \<le> i \<and> int (length lens) = i + 1)"
  proof (rule for_loop_upt_inv[where I="\<lambda>k (i, prev, lens, vals). 0 \<le> i \<and> int (length lens) = i + 1"], goal_cases)
    case 1
    show ?case by simp
  next
    case 2
    show ?case using assms by (cases x) simp_all
  next
    case (3 k s)
    obtain i prev lens vals where s: "s = (i, prev, lens, vals)" by (cases s)
    from 3 s have i: "0 \<le> i" "int (length lens) = i + 1" by simp_all
    have rdk: "rd x (int k) = Inr (x ! k)" using 3 by (simp add: rd_def)
    have rdl: "rd lens i = Inr (lens ! nat i)" using i by (simp add: rd_def)
    have wrl: "\<And>v. wr lens i v = Inr (lens[nat i := v])" using i by (simp add: wr_def)
    show ?case
      using s i rdk rdl wrl by simp
  qed
  then obtain s' where "for_loop [1..<length x] (\<lambda>k (i, prev, lens, vals).
                 bindE (rd x (int k)) (\<lambda>v.
                 if deq prev v
                 then bindE (rd lens i) (\<lambda>l.
                      bindE (wr lens i (l + 1)) (\<lambda>lens'. Inr (i, prev, lens', vals)))
                 else Inr (i + 1, v, lens @ [1], vals @ [v]))) (0, x ! 0, [1::int], [x ! 0]) = Inr s'" by blast
  moreover obtain i prev lens vals where "s' = (i, prev, lens, vals)" by (cases s')
  ultimately have "rleC x = Inr \<lparr>lengths = lens, values = vals\<rparr>"
    using rd0 by (simp add: rleC_def)
  then show ?thesis by blast
qed

lemma replicate_nat_succ: "0 \<le> l \<Longrightarrow> replicate (nat (l + 1)) p = replicate (nat l) p @ [p]"
  by (simp add: nat_add_distrib replicate_append_same)

lemma zeros_same:
  assumes "is_zero a" and "is_zero b" and "a \<in> set x" and "b \<in> set x"
    and "NZero \<notin> set x \<or> Fin 0 \<notin> set x"
  shows "a = b"
  using assms by (cases a; cases b) auto

lemma rleC_runs_eq:
  assumes ne: "x \<noteq> []"
  shows "\<exists>r. rleC x = Inr r \<and> length (lengths r) = length (values r) \<and> values r \<noteq> [] \<and>
           list_all2 (\<lambda>e a. e = a \<or> (is_zero e \<and> is_zero a)) (expand_runs r) x \<and>
           (NZero \<notin> set x \<or> Fin 0 \<notin> set x \<longrightarrow> expand_runs r = x) \<and>
           sum_list (lengths r) = int (length x) \<and>
           (\<forall>l\<in>set (lengths r). 1 \<le> l) \<and> successively (\<lambda>a b. \<not> deq a b) (values r) \<and>
           set (values r) \<subseteq> set x"
proof -
  have rd0: "rd x 0 = Inr (x ! 0)" using ne by (simp add: rd_def)
  have "\<exists>s'. for_loop [1..<length x] (\<lambda>k (i, prev, lens, vals).
                 bindE (rd x (int k)) (\<lambda>v.
                 if deq prev v
                 then bindE (rd lens i) (\<lambda>l.
                      bindE (wr lens i (l + 1)) (\<lambda>lens'. Inr (i, prev, lens', vals)))
                 else Inr (i + 1, v, lens @ [1], vals @ [v]))) (0, x ! 0, [1], [x ! 0]) = Inr s' \<and>
          (case s' of (i, prev, lens, vals) \<Rightarrow>
             \<exists>vs0 ls0 l. vals = vs0 @ [prev] \<and> lens = ls0 @ [l] \<and> length vs0 = length ls0 \<and>
               i = int (length vs0) \<and> 1 \<le> l \<and> (\<forall>l\<in>set ls0. 1 \<le> l) \<and>
               successively (\<lambda>a b. \<not> deq a b) (vs0 @ [prev]) \<and> set (vs0 @ [prev]) \<subseteq> set x \<and>
               list_all2 (\<lambda>e a. e = a \<or> (is_zero e \<and> is_zero a))
                 (concat (map2 (\<lambda>v l. replicate (nat l) v) vs0 ls0) @ replicate (nat l) prev) (take (length x) x) \<and>
               (NZero \<notin> set x \<or> Fin 0 \<notin> set x \<longrightarrow>
                  concat (map2 (\<lambda>v l. replicate (nat l) v) vs0 ls0) @ replicate (nat l) prev = take (length x) x) \<and>
               sum_list ls0 + l = int (length x))"
  proof (rule for_loop_upt_inv[where I="\<lambda>k (i, prev, lens, vals).
             \<exists>vs0 ls0 l. vals = vs0 @ [prev] \<and> lens = ls0 @ [l] \<and> length vs0 = length ls0 \<and>
               i = int (length vs0) \<and> 1 \<le> l \<and> (\<forall>l\<in>set ls0. 1 \<le> l) \<and>
               successively (\<lambda>a b. \<not> deq a b) (vs0 @ [prev]) \<and> set (vs0 @ [prev]) \<subseteq> set x \<and>
               list_all2 (\<lambda>e a. e = a \<or> (is_zero e \<and> is_zero a))
                 (concat (map2 (\<lambda>v l. replicate (nat l) v) vs0 ls0) @ replicate (nat l) prev) (take k x) \<and>
               (NZero \<notin> set x \<or> Fin 0 \<notin> set x \<longrightarrow>
                  concat (map2 (\<lambda>v l. replicate (nat l) v) vs0 ls0) @ replicate (nat l) prev = take k x) \<and>
               sum_list ls0 + l = int k"], goal_cases)
    case 1
    show ?case using ne by (cases x) simp_all
  next
    case 2
    show ?case using ne by (cases x) simp_all
  next
    case (3 k s)
    obtain i prev lens vals where s: "s = (i, prev, lens, vals)" by (cases s)
    from 3(3) have "\<exists>vs0 ls0 l. vals = vs0 @ [prev] \<and> lens = ls0 @ [l] \<and> length vs0 = length ls0 \<and>
               i = int (length vs0) \<and> 1 \<le> l \<and> (\<forall>l\<in>set ls0. 1 \<le> l) \<and>
               successively (\<lambda>a b. \<not> deq a b) (vs0 @ [prev]) \<and> set (vs0 @ [prev]) \<subseteq> set x \<and>
               list_all2 (\<lambda>e a. e = a \<or> (is_zero e \<and> is_zero a))
                 (concat (map2 (\<lambda>v l. replicate (nat l) v) vs0 ls0) @ replicate (nat l) prev) (take k x) \<and>
               (NZero \<notin> set x \<or> Fin 0 \<notin> set x \<longrightarrow>
                  concat (map2 (\<lambda>v l. replicate (nat l) v) vs0 ls0) @ replicate (nat l) prev = take k x) \<and>
               sum_list ls0 + l = int k"
      unfolding s prod.case .
    then obtain vs0 ls0 l where inv:
      "vals = vs0 @ [prev]" "lens = ls0 @ [l]" "length vs0 = length ls0"
      "i = int (length vs0)" "1 \<le> l" "\<forall>l\<in>set ls0. 1 \<le> l"
      "successively (\<lambda>a b. \<not> deq a b) (vs0 @ [prev])" "set (vs0 @ [prev]) \<subseteq> set x"
      "list_all2 (\<lambda>e a. e = a \<or> (is_zero e \<and> is_zero a))
         (concat (map2 (\<lambda>v l. replicate (nat l) v) vs0 ls0) @ replicate (nat l) prev) (take k x)"
      "NZero \<notin> set x \<or> Fin 0 \<notin> set x \<longrightarrow>
         concat (map2 (\<lambda>v l. replicate (nat l) v) vs0 ls0) @ replicate (nat l) prev = take k x"
      "sum_list ls0 + l = int k"
      by blast
    have rdk: "rd x (int k) = Inr (x ! k)" using 3 by (simp add: rd_def)
    have tk: "take (Suc k) x = take k x @ [x ! k]" using 3 by (simp add: take_Suc_conv_app_nth)
    have xk: "x ! k \<in> set x" using 3 by simp
    have prev_in: "prev \<in> set x" using inv(8) by simp
    show ?case
    proof (cases "deq prev (x ! k)")
      case True
      then have eq: "prev = x ! k \<or> (is_zero prev \<and> is_zero (x ! k))" by (simp add: deq_def)
      have rdl: "rd lens i = Inr l" using inv by (simp add: rd_def)
      have wrl: "wr lens i (l + 1) = Inr (ls0 @ [l + 1])" using inv by (simp add: wr_def)
      have rep: "concat (map2 (\<lambda>v l. replicate (nat l) v) vs0 ls0) @ replicate (nat (l + 1)) prev =
                 (concat (map2 (\<lambda>v l. replicate (nat l) v) vs0 ls0) @ replicate (nat l) prev) @ [prev]"
        using inv(5) by (simp add: replicate_nat_succ)
      have "list_all2 (\<lambda>e a. e = a \<or> (is_zero e \<and> is_zero a))
              (concat (map2 (\<lambda>v l. replicate (nat l) v) vs0 ls0) @ replicate (nat (l + 1)) prev)
              (take (Suc k) x)"
        unfolding rep tk using inv(9) eq by (intro list_all2_appendI) simp_all
      moreover have "NZero \<notin> set x \<or> Fin 0 \<notin> set x \<longrightarrow>
              concat (map2 (\<lambda>v l. replicate (nat l) v) vs0 ls0) @ replicate (nat (l + 1)) prev =
              take (Suc k) x"
      proof
        assume z: "NZero \<notin> set x \<or> Fin 0 \<notin> set x"
        have "prev = x ! k" using eq zeros_same[OF _ _ prev_in xk z] by blast
        then show "concat (map2 (\<lambda>v l. replicate (nat l) v) vs0 ls0) @ replicate (nat (l + 1)) prev =
              take (Suc k) x"
          unfolding rep tk using inv(10) z by simp
      qed
      moreover have "sum_list ls0 + (l + 1) = int (Suc k)" using inv(11) by simp
      moreover have "1 \<le> l + 1" using inv(5) by simp
      ultimately have "\<exists>vs0' ls0' l'. vals = vs0' @ [prev] \<and> ls0 @ [l + 1] = ls0' @ [l'] \<and> length vs0' = length ls0' \<and>
               i = int (length vs0') \<and> 1 \<le> l' \<and> (\<forall>l\<in>set ls0'. 1 \<le> l) \<and>
               successively (\<lambda>a b. \<not> deq a b) (vs0' @ [prev]) \<and> set (vs0' @ [prev]) \<subseteq> set x \<and>
               list_all2 (\<lambda>e a. e = a \<or> (is_zero e \<and> is_zero a))
                 (concat (map2 (\<lambda>v l. replicate (nat l) v) vs0' ls0') @ replicate (nat l') prev) (take (Suc k) x) \<and>
               (NZero \<notin> set x \<or> Fin 0 \<notin> set x \<longrightarrow>
                  concat (map2 (\<lambda>v l. replicate (nat l) v) vs0' ls0') @ replicate (nat l') prev = take (Suc k) x) \<and>
               sum_list ls0' + l' = int (Suc k)"
        apply (intro exI[of _ "vs0"] exI[of _ "ls0"] exI[of _ "l + 1"])
        using inv(1,3,4,6,7,8) by simp
      then show ?thesis
        using s rdk True rdl wrl by simp
    next
      case False
      have rep: "concat (map2 (\<lambda>v l. replicate (nat l) v) (vs0 @ [prev]) (ls0 @ [l])) @ replicate (nat 1) (x ! k) =
                 (concat (map2 (\<lambda>v l. replicate (nat l) v) vs0 ls0) @ replicate (nat l) prev) @ [x ! k]"
        using inv(3) by simp
      have "list_all2 (\<lambda>e a. e = a \<or> (is_zero e \<and> is_zero a))
              (concat (map2 (\<lambda>v l. replicate (nat l) v) (vs0 @ [prev]) (ls0 @ [l])) @ replicate (nat 1) (x ! k))
              (take (Suc k) x)"
        unfolding rep tk using inv(9) by (intro list_all2_appendI) simp_all
      moreover have "NZero \<notin> set x \<or> Fin 0 \<notin> set x \<longrightarrow>
              concat (map2 (\<lambda>v l. replicate (nat l) v) (vs0 @ [prev]) (ls0 @ [l])) @ replicate (nat 1) (x ! k) =
              take (Suc k) x"
        unfolding rep tk using inv(10) by simp
      moreover have "successively (\<lambda>a b. \<not> deq a b) ((vs0 @ [prev]) @ [x ! k])"
        using inv(7) False by (simp add: successively_append_iff)
      moreover have "set ((vs0 @ [prev]) @ [x ! k]) \<subseteq> set x" using inv(8) xk by simp
      moreover have "sum_list (ls0 @ [l]) + 1 = int (Suc k)" using inv(11) by simp
      moreover have "\<forall>l\<in>set (ls0 @ [l]). 1 \<le> l" using inv(5,6) by simp
      moreover have "length (vs0 @ [prev]) = length (ls0 @ [l])" using inv(3) by simp
      ultimately have "\<exists>vs0' ls0' l'. vals @ [x ! k] = vs0' @ [x ! k] \<and> lens @ [1] = ls0' @ [l'] \<and> length vs0' = length ls0' \<and>
               i + 1 = int (length vs0') \<and> 1 \<le> l' \<and> (\<forall>l\<in>set ls0'. 1 \<le> l) \<and>
               successively (\<lambda>a b. \<not> deq a b) (vs0' @ [x ! k]) \<and> set (vs0' @ [x ! k]) \<subseteq> set x \<and>
               list_all2 (\<lambda>e a. e = a \<or> (is_zero e \<and> is_zero a))
                 (concat (map2 (\<lambda>v l. replicate (nat l) v) vs0' ls0') @ replicate (nat l') (x ! k)) (take (Suc k) x) \<and>
               (NZero \<notin> set x \<or> Fin 0 \<notin> set x \<longrightarrow>
                  concat (map2 (\<lambda>v l. replicate (nat l) v) vs0' ls0') @ replicate (nat l') (x ! k) = take (Suc k) x) \<and>
               sum_list ls0' + l' = int (Suc k)"
        apply (intro exI[of _ "vs0 @ [prev]"] exI[of _ "ls0 @ [l]"] exI[of _ "1"])
        using inv(1,2,4) by simp
      then show ?thesis
        using s rdk False by simp
    qed
  qed
  then obtain s' where fl': "for_loop [1..<length x] (\<lambda>k (i, prev, lens, vals).
                 bindE (rd x (int k)) (\<lambda>v.
                 if deq prev v
                 then bindE (rd lens i) (\<lambda>l.
                      bindE (wr lens i (l + 1)) (\<lambda>lens'. Inr (i, prev, lens', vals)))
                 else Inr (i + 1, v, lens @ [1], vals @ [v]))) (0, x ! 0, [1], [x ! 0]) = Inr s'"
    and c: "case s' of (i, prev, lens, vals) \<Rightarrow>
             \<exists>vs0 ls0 l. vals = vs0 @ [prev] \<and> lens = ls0 @ [l] \<and> length vs0 = length ls0 \<and>
               i = int (length vs0) \<and> 1 \<le> l \<and> (\<forall>l\<in>set ls0. 1 \<le> l) \<and>
               successively (\<lambda>a b. \<not> deq a b) (vs0 @ [prev]) \<and> set (vs0 @ [prev]) \<subseteq> set x \<and>
               list_all2 (\<lambda>e a. e = a \<or> (is_zero e \<and> is_zero a))
                 (concat (map2 (\<lambda>v l. replicate (nat l) v) vs0 ls0) @ replicate (nat l) prev) (take (length x) x) \<and>
               (NZero \<notin> set x \<or> Fin 0 \<notin> set x \<longrightarrow>
                  concat (map2 (\<lambda>v l. replicate (nat l) v) vs0 ls0) @ replicate (nat l) prev = take (length x) x) \<and>
               sum_list ls0 + l = int (length x)"
    by blast
  obtain i prev lens vals where s': "s' = (i, prev, lens, vals)" by (cases s')
  have fl: "for_loop [1..<length x] (\<lambda>k (i, prev, lens, vals).
                 bindE (rd x (int k)) (\<lambda>v.
                 if deq prev v
                 then bindE (rd lens i) (\<lambda>l.
                      bindE (wr lens i (l + 1)) (\<lambda>lens'. Inr (i, prev, lens', vals)))
                 else Inr (i + 1, v, lens @ [1], vals @ [v]))) (0, x ! 0, [1], [x ! 0]) = Inr (i, prev, lens, vals)" using fl' s' by simp
  from c have "\<exists>vs0 ls0 l. vals = vs0 @ [prev] \<and> lens = ls0 @ [l] \<and> length vs0 = length ls0 \<and>
               i = int (length vs0) \<and> 1 \<le> l \<and> (\<forall>l\<in>set ls0. 1 \<le> l) \<and>
               successively (\<lambda>a b. \<not> deq a b) (vs0 @ [prev]) \<and> set (vs0 @ [prev]) \<subseteq> set x \<and>
               list_all2 (\<lambda>e a. e = a \<or> (is_zero e \<and> is_zero a))
                 (concat (map2 (\<lambda>v l. replicate (nat l) v) vs0 ls0) @ replicate (nat l) prev) (take (length x) x) \<and>
               (NZero \<notin> set x \<or> Fin 0 \<notin> set x \<longrightarrow>
                  concat (map2 (\<lambda>v l. replicate (nat l) v) vs0 ls0) @ replicate (nat l) prev = take (length x) x) \<and>
               sum_list ls0 + l = int (length x)"
    unfolding s' prod.case .
  then obtain vs0 ls0 l where inv: "vals = vs0 @ [prev]" "lens = ls0 @ [l]" "length vs0 = length ls0"
      "i = int (length vs0)" "1 \<le> l" "\<forall>l\<in>set ls0. 1 \<le> l"
      "successively (\<lambda>a b. \<not> deq a b) (vs0 @ [prev])" "set (vs0 @ [prev]) \<subseteq> set x"
      "list_all2 (\<lambda>e a. e = a \<or> (is_zero e \<and> is_zero a))
         (concat (map2 (\<lambda>v l. replicate (nat l) v) vs0 ls0) @ replicate (nat l) prev) (take (length x) x)"
      "NZero \<notin> set x \<or> Fin 0 \<notin> set x \<longrightarrow>
         concat (map2 (\<lambda>v l. replicate (nat l) v) vs0 ls0) @ replicate (nat l) prev = take (length x) x"
      "sum_list ls0 + l = int (length x)"
    by blast
  have r: "rleC x = Inr \<lparr>lengths = lens, values = vals\<rparr>"
    using rd0 fl by (simp add: rleC_def)
  have ex: "expand_runs \<lparr>lengths = lens, values = vals\<rparr> =
        concat (map2 (\<lambda>v l. replicate (nat l) v) vs0 ls0) @ replicate (nat l) prev"
    using inv(1,2,3) by (simp add: expand_runs_def)
  show ?thesis using r inv unfolding ex[symmetric] by simp
qed

lemma successively_neq:
  assumes "successively (\<lambda>a b. \<not> deq a b) vs" and "NaN \<notin> set vs"
  shows "distinct_adj vs"
  unfolding distinct_adj_def
proof (rule successively_mono[OF assms(1)])
  fix a b assume "a \<in> set vs" "b \<in> set vs" "\<not> deq a b"
  then show "a \<noteq> b" using assms(2) by (auto simp add: deq_def)
qed

lemma rleC_runs:
  assumes ne: "x \<noteq> []" and nonan: "NaN \<notin> set x" and nonz: "NZero \<notin> set x"
  shows "\<exists>r. rleC x = Inr r \<and> length (lengths r) = length (values r) \<and> values r \<noteq> [] \<and>
           expand_runs r = x \<and> sum_list (lengths r) = int (length x) \<and>
           (\<forall>l\<in>set (lengths r). 1 \<le> l) \<and> distinct_adj (values r) \<and> set (values r) \<subseteq> set x"
proof -
  from rleC_runs_eq[OF ne] obtain r where r: "rleC x = Inr r"
    "length (lengths r) = length (values r)" "values r \<noteq> []"
    "NZero \<notin> set x \<or> Fin 0 \<notin> set x \<longrightarrow> expand_runs r = x"
    "sum_list (lengths r) = int (length x)" "\<forall>l\<in>set (lengths r). 1 \<le> l"
    "successively (\<lambda>a b. \<not> deq a b) (values r)" "set (values r) \<subseteq> set x"
    by blast
  have "NaN \<notin> set (values r)" using r(8) nonan by blast
  then have "distinct_adj (values r)" using r(7) by (rule successively_neq[rotated])
  then show ?thesis using r nonz by blast
qed

text \<open>
  C10: \<open>rleC\<close> reads \<open>x[0]\<close> before anything else, so on the empty vector it reads out of
  range; on every non-empty vector no access is out of range (the read of \<open>x[0]\<close>, the reads
  of the scan, the read and the write of \<open>lengths[i]\<close>) and it returns.
\<close>

theorem rleC_accesses_in_bounds:
  "rleC [] = Inl OutOfBounds \<and>
   (x \<noteq> [] \<longrightarrow> rleC x \<noteq> Inl OutOfBounds \<and> (\<exists>r. rleC x = Inr r))"
  using rleC_total[of x] rleC_empty by auto

theorem rleC_accesses_in_bounds_witness:
  "rleC [] = Inl OutOfBounds \<and> rleC [Fin 5, Fin 5, Fin 3] \<noteq> Inl OutOfBounds \<and>
   (\<exists>r. rleC [Fin 5, Fin 5, Fin 3] = Inr r)"
  using rleC_accesses_in_bounds[of "[Fin 5, Fin 5, Fin 3]"] by simp





section \<open>repr\_paa\<close>

lemma fill_loop:
  assumes "length v = m"
  shows "for_loop [0..<m] (\<lambda>j v. wr v (int j) (f j)) v = Inr (map f [0..<m])"
proof -
  have "\<exists>v'. for_loop [0..<m] (\<lambda>j v. wr v (int j) (f j)) v = Inr v' \<and>
          (length v' = m \<and> take m v' = map f [0..<m])"
  proof (rule for_loop_upt_inv[where I="\<lambda>j v'. length v' = m \<and> take j v' = map f [0..<j]"], goal_cases)
    case 1
    show ?case using assms by simp
  next
    case 2
    show ?case by simp
  next
    case (3 j s)
    then have "wr s (int j) (f j) = Inr (s[j := f j])" by (simp add: wr_def)
    moreover have "take (Suc j) (s[j := f j]) = map f [0..<Suc j]"
      using 3 by (simp add: take_Suc_conv_app_nth)
    ultimately show ?case using 3 by simp
  qed
  then show ?thesis by auto
qed

lemma subset_at_in_range:
  assumes "\<forall>i\<in>set idx. 0 \<le> i \<and> i < int (length xs)"
  shows "subset_at xs idx = Inr (map (\<lambda>i. xs ! nat i) idx)"
  using assms by (induction idx) (simp_all add: rd_def)

lemma map_nth_block:
  assumes "a + m \<le> length xs"
  shows "map (\<lambda>j. xs ! (a + j)) [0..<m] = take m (drop a xs)"
  using assms by (intro nth_equalityI) simp_all

lemma subset_at_block:
  assumes "a + m \<le> length xs"
  shows "subset_at xs (map (\<lambda>j. int a + int j) [0..<m]) = Inr (take m (drop a xs))"
proof -
  have "subset_at xs (map (\<lambda>j. int a + int j) [0..<m]) =
        Inr (map (\<lambda>i. xs ! nat i) (map (\<lambda>j. int a + int j) [0..<m]))"
    using assms by (intro subset_at_in_range) auto
  also have "map (\<lambda>i. xs ! nat i) (map (\<lambda>j. int a + int j) [0..<m]) = map (\<lambda>j. xs ! (a + j)) [0..<m]"
    by (simp add: nat_add_distrib)
  finally show ?thesis using assms by (simp add: map_nth_block)
qed

lemma paa_piece_ok:
  assumes q: "1 \<le> q" and sx: "length sub_x = nat q"
    and fits: "i * nat q + nat q \<le> length x" and ir: "i < length repr"
  shows "paa_piece x q func i (repr, sub_x) =
           Inr (repr[i := func (take (nat q) (drop (i * nat q) x))],
                map (\<lambda>j. int i * q + int j) [0..<nat q])"
proof -
  have iq: "int i * q = int (i * nat q)" using q by simp
  have "subset_at x (map (\<lambda>j. int i * q + int j) [0..<nat q]) = Inr (take (nat q) (drop (i * nat q) x))"
    unfolding iq using fits by (rule subset_at_block)
  then show ?thesis
    using fill_loop[OF sx, of "\<lambda>j. int i * q + int j"] ir
    by (simp add: paa_piece_def wr_def)
qed

lemma paa_loop:
  assumes q: "1 \<le> q" and sx: "length sub_x = nat q"
    and fits: "N * nat q \<le> length x" and nr: "N \<le> length repr"
  shows "\<exists>repr' sub_x'. for_loop [0..<N] (paa_piece x q func) (repr, sub_x) = Inr (repr', sub_x') \<and>
           length repr' = length repr \<and>
           take N repr' = map (\<lambda>i. func (take (nat q) (drop (i * nat q) x))) [0..<N] \<and>
           drop N repr' = drop N repr"
proof -
  have "\<exists>s'. for_loop [0..<N] (paa_piece x q func) (repr, sub_x) = Inr s' \<and>
          (case s' of (r, sx) \<Rightarrow> length sx = nat q \<and> length r = length repr \<and>
             take N r = map (\<lambda>i. func (take (nat q) (drop (i * nat q) x))) [0..<N] \<and>
             drop N r = drop N repr)"
  proof (rule for_loop_upt_inv[where I="\<lambda>k (r, sx). length sx = nat q \<and> length r = length repr \<and>
             take k r = map (\<lambda>i. func (take (nat q) (drop (i * nat q) x))) [0..<k] \<and>
             drop k r = drop k repr"], goal_cases)
    case 1
    show ?case using sx by simp
  next
    case 2
    show ?case by simp
  next
    case (3 k s)
    obtain r sx' where s: "s = (r, sx')" by (cases s)
    from 3 s have inv: "length sx' = nat q" "length r = length repr"
      "take k r = map (\<lambda>i. func (take (nat q) (drop (i * nat q) x))) [0..<k]"
      "drop k r = drop k repr" by simp_all
    have "Suc k * nat q \<le> N * nat q" using 3(2) by (intro mult_le_mono1) simp
    then have fit: "k * nat q + nat q \<le> length x" using fits by simp
    have kr: "k < length r" using 3(2) nr inv(2) by simp
    have step: "paa_piece x q func k (r, sx') =
           Inr (r[k := func (take (nat q) (drop (k * nat q) x))],
                map (\<lambda>j. int k * q + int j) [0..<nat q])"
      using q inv(1) fit kr by (rule paa_piece_ok)
    have "take (Suc k) (r[k := func (take (nat q) (drop (k * nat q) x))]) =
          map (\<lambda>i. func (take (nat q) (drop (i * nat q) x))) [0..<Suc k]"
      using kr inv(3) by (simp add: take_Suc_conv_app_nth)
    moreover have "drop (Suc k) (r[k := func (take (nat q) (drop (k * nat q) x))]) = drop (Suc k) repr"
      using inv(4) by (metis drop_Suc drop_update_cancel lessI tl_drop)
    ultimately show ?case using s step inv by simp
  qed
  then show ?thesis by auto
qed

lemma repr_paa_eq:
  assumes q: "1 \<le> q"
  shows "repr_paa x q func =
           Inr (map (\<lambda>i. func (take (nat q) (drop (i * nat q) x))) [0..<length x div nat q] @
                (if length x mod nat q = 0 then []
                 else [func (drop (length x div nat q * nat q) x)]))"
proof -
  let ?n = "int (length x)"
  let ?N = "length x div nat q"
  let ?piece = "\<lambda>i. func (take (nat q) (drop (i * nat q) x))"
  have sd: "?n sdiv q = int ?N" using q
    by (simp add: signed_divide_int_def sgn_if zdiv_int)
  have sm: "?n smod q = int (length x mod nat q)" using q
    by (simp add: smod_mod_positive zmod_int)
  have fits: "?N * nat q \<le> length x" by simp
  have rc: "?n - int ?N * q = int (length x - ?N * nat q)" using q fits
    by (simp add: of_nat_diff)
  have le: "\<not> ?n < int ?N * q"
  proof -
    have "int (?N * nat q) \<le> ?n" using fits by (simp only: of_nat_le_iff)
    then show ?thesis using q by simp
  qed
  show ?thesis
  proof (cases "length x mod nat q = 0")
    case True
    obtain repr' sub_x' where l: "for_loop [0..<?N] (paa_piece x q func) (replicate ?N (Fin 0), replicate (nat q) 0) = Inr (repr', sub_x')"
      "length repr' = ?N" "take ?N repr' = map ?piece [0..<?N]"
      using paa_loop[OF q _ fits, of "replicate (nat q) 0" "replicate ?N (Fin 0)" func] by auto
    then have "repr' = map ?piece [0..<?N]" by simp
    then show ?thesis using True q sd sm l(1) rc le
      by (simp add: repr_paa_def Let_def alloc_def)
  next
    case False
    let ?rc = "nat (?n - int ?N * q)"
    let ?last = "func (drop (?N * nat q) x)"
    have rcn: "?rc = length x - ?N * nat q" by (simp only: rc nat_int)
    obtain repr' sub_x' where l: "for_loop [0..<?N] (paa_piece x q func)
         (replicate (nat (int ?N + 1)) (Fin 0), replicate (nat q) 0) = Inr (repr', sub_x')"
      and lr: "length repr' = Suc ?N" and tk: "take ?N repr' = map ?piece [0..<?N]"
      using paa_loop[OF q _ fits, of "replicate (nat q) 0" "replicate (nat (int ?N + 1)) (Fin 0)" func]
      by (auto simp add: nat_add_distrib)
    have fl: "for_loop [0..<?rc] (\<lambda>j sub_rem. wr sub_rem (int j) (int ?N * q + int j)) (replicate ?rc 0) =
              Inr (map (\<lambda>j. int ?N * q + int j) [0..<?rc])"
      by (rule fill_loop) simp
    have nq: "int ?N * q = int (?N * nat q)" using q by simp
    have sb0: "subset_at x (map (\<lambda>j. int (?N * nat q) + int j) [0..<?rc]) = Inr (take ?rc (drop (?N * nat q) x))"
      by (rule subset_at_block) (simp add: rcn)
    have tkall: "take ?rc (drop (?N * nat q) x) = drop (?N * nat q) x"
      by (simp add: rcn)
    have sb: "subset_at x (map (\<lambda>j. int ?N * q + int j) [0..<?rc]) = Inr (drop (?N * nat q) x)"
      using sb0 unfolding nq[symmetric] tkall .
    have wrf: "wr repr' (int ?N) ?last = Inr (repr'[?N := ?last])"
      using lr by (simp add: wr_def)
    have "repr'[?N := ?last] = take ?N repr' @ [?last]"
      using lr by (simp add: upd_conv_take_nth_drop)
    then have fin: "repr'[?N := ?last] = map ?piece [0..<?N] @ [?last]"
      using tk by simp
    have nz: "int (length x mod nat q) \<noteq> 0" using False by simp
    show ?thesis
      unfolding repr_paa_def Let_def sd sm
      using q nz le False
      by (simp add: alloc_def l fl sb wrf fin)
  qed
qed

lemma max_agg_singleton: "max_agg [v] = v"
  by (simp add: max_agg_def maxC_def)

lemma ceiling_blocks:
  assumes "1 \<le> q"
  shows "int (length x div nat q + (if length x mod nat q = 0 then 0 else 1)) =
         \<lceil>real (length x) / real_of_int q\<rceil>"
proof -
  obtain m where m: "q = int m" "1 \<le> m" using assms by (cases q) auto
  let ?n = "length x"
  have "\<lceil>real ?n / real m\<rceil> = \<lceil>of_int (int ?n) / real_of_int (int m)\<rceil>" by simp
  also have "\<dots> = - (- int ?n div int m)" by (rule ceiling_divide_eq_div)
  also have "\<dots> = int (?n div m + (if ?n mod m = 0 then 0 else 1))"
  proof (cases "?n mod m = 0")
    case True
    then have "int ?n mod int m = 0" by (simp flip: zmod_int)
    then show ?thesis using m True by (simp add: zdiv_zminus1_eq_if zdiv_int)
  next
    case False
    then have "int ?n mod int m \<noteq> 0" by (simp flip: zmod_int)
    then show ?thesis using m False by (simp add: zdiv_zminus1_eq_if zdiv_int)
  qed
  finally show ?thesis using m by simp
qed

text \<open>
  C5: for every sequence \<open>x\<close> of length \<open>n\<close>, every \<open>q \<ge> 1\<close> and every aggregation function,
  \<open>repr_paa\<close> returns \<open>\<lceil>n / q\<rceil>\<close> values. The value at \<open>i\<close>, for each of the first
  \<open>n div q\<close> indices, is the aggregate of the \<open>q\<close> elements of \<open>x\<close> from index \<open>i * q\<close> on; when
  \<open>q\<close> does not divide \<open>n\<close>, the last value is the aggregate of the \<open>n mod q\<close> elements that
  remain. With \<open>q = 1\<close> and an aggregation function that maps a singleton to its element,
  the result is \<open>x\<close>.
\<close>

theorem repr_paa_blocks:
  assumes "1 \<le> q"
  shows "\<exists>ys. repr_paa x q agg = Inr ys \<and>
           int (length ys) = \<lceil>real (length x) / real_of_int q\<rceil> \<and>
           (\<forall>i < length x div nat q.
              ys ! i = agg (take (nat q) (drop (i * nat q) x)) \<and>
              length (take (nat q) (drop (i * nat q) x)) = nat q) \<and>
           (length x mod nat q \<noteq> 0 \<longrightarrow>
              ys ! (length x div nat q) = agg (drop (length x div nat q * nat q) x) \<and>
              length (drop (length x div nat q * nat q) x) = length x mod nat q) \<and>
           (q = 1 \<and> (\<forall>v. agg [v] = v) \<longrightarrow> ys = x)"
proof -
  let ?N = "length x div nat q"
  let ?piece = "\<lambda>i. agg (take (nat q) (drop (i * nat q) x))"
  let ?ys = "map ?piece [0..<?N] @
             (if length x mod nat q = 0 then [] else [agg (drop (?N * nat q) x)])"
  have eq: "repr_paa x q agg = Inr ?ys" using assms by (rule repr_paa_eq)
  have len: "int (length ?ys) = \<lceil>real (length x) / real_of_int q\<rceil>"
    using ceiling_blocks[OF assms, of x] by (auto split: if_splits)
  have full: "\<forall>i < ?N. ?ys ! i = ?piece i \<and> length (take (nat q) (drop (i * nat q) x)) = nat q"
  proof (intro allI impI)
    fix i assume i: "i < ?N"
    then have "Suc i * nat q \<le> ?N * nat q" by (intro mult_le_mono1) simp
    also have "\<dots> \<le> length x" by simp
    finally have "i * nat q + nat q \<le> length x" by simp
    then have "length (take (nat q) (drop (i * nat q) x)) = nat q" by simp
    moreover have "?ys ! i = ?piece i" using i by (simp add: nth_append)
    ultimately show "?ys ! i = ?piece i \<and> length (take (nat q) (drop (i * nat q) x)) = nat q"
      by simp
  qed
  have rest: "length x mod nat q \<noteq> 0 \<longrightarrow>
              ?ys ! ?N = agg (drop (?N * nat q) x) \<and>
              length (drop (?N * nat q) x) = length x mod nat q"
  proof
    assume nz: "length x mod nat q \<noteq> 0"
    have "?ys ! ?N = agg (drop (?N * nat q) x)" using nz by (simp add: nth_append)
    moreover have "length x - ?N * nat q = length x mod nat q"
      by (simp add: minus_div_mult_eq_mod)
    ultimately show "?ys ! ?N = agg (drop (?N * nat q) x) \<and>
              length (drop (?N * nat q) x) = length x mod nat q" by simp
  qed
  have one: "q = 1 \<and> (\<forall>v. agg [v] = v) \<longrightarrow> ?ys = x"
  proof
    assume h: "q = 1 \<and> (\<forall>v. agg [v] = v)"
    have "map (\<lambda>i. agg (take 1 (drop i x))) [0..<length x] = x"
    proof (intro nth_equalityI)
      fix i assume "i < length (map (\<lambda>i. agg (take 1 (drop i x))) [0..<length x])"
      then have i: "i < length x" by simp
      then have "take 1 (drop i x) = [x ! i]"
        by (simp add: take_Suc_conv_app_nth)
      then show "map (\<lambda>i. agg (take 1 (drop i x))) [0..<length x] ! i = x ! i"
        using h i by simp
    qed simp
    then show "?ys = x" using h by simp
  qed
  show ?thesis using eq len full rest one by blast
qed

theorem repr_paa_blocks_witness:
  "\<exists>ys. repr_paa [Fin 1, Fin 2, Fin 3, Fin 4, Fin 5] 2 accumulate = Inr ys \<and>
        length ys = 3 \<and> ys ! 0 = Fin 3 \<and> ys ! 1 = Fin 7 \<and> ys ! 2 = Fin 5 \<and>
        repr_paa [Fin 1, Fin 2, Fin 3, Fin 4, Fin 5] 1 max_agg =
          Inr [Fin 1, Fin 2, Fin 3, Fin 4, Fin 5]"
proof -
  let ?X = "[Fin 1, Fin 2, Fin 3, Fin 4, Fin 5]"
  have two: "(1::int) \<le> 2" by simp
  from repr_paa_blocks[OF two, of ?X accumulate] obtain ys where
    A: "repr_paa ?X 2 accumulate = Inr ys" and
    B: "int (length ys) = \<lceil>real (length ?X) / real_of_int 2\<rceil>" and
    C: "\<forall>i < length ?X div nat 2.
          ys ! i = accumulate (take (nat 2) (drop (i * nat 2) ?X)) \<and>
          length (take (nat 2) (drop (i * nat 2) ?X)) = nat 2" and
    D: "length ?X mod nat 2 \<noteq> 0 \<longrightarrow>
          ys ! (length ?X div nat 2) = accumulate (drop (length ?X div nat 2 * nat 2) ?X) \<and>
          length (drop (length ?X div nat 2 * nat 2) ?X) = length ?X mod nat 2"
    by blast
  have "\<lceil>5 / (2::real)\<rceil> = 3" by (simp add: ceiling_eq_iff)
  with B have len: "length ys = 3" by simp
  have s1: "accumulate [Fin 1, Fin 2] = Fin 3" by code_simp
  have s2: "accumulate [Fin 3, Fin 4] = Fin 7" by code_simp
  have s3: "accumulate [Fin 5] = Fin 5" by code_simp
  have y0: "ys ! 0 = Fin 3" using C[rule_format, of 0] by (simp add: s1)
  have y1: "ys ! 1 = Fin 7" using C[rule_format, of 1] by (simp add: s2)
  have "ys ! Suc (Suc 0) = Fin 5" using D by (simp add: s3)
  then have y2: "ys ! 2 = Fin 5" by (simp add: numeral_2_eq_2)
  have one: "(1::int) \<le> 1" by simp
  have id: "repr_paa ?X 1 max_agg = Inr ?X"
    using repr_paa_blocks[OF one, of ?X max_agg]
    by (auto simp add: max_agg_singleton)
  show ?thesis using A len y0 y1 y2 id by simp
qed

section \<open>repr\_seas\_profile\<close>

lemma seas_piece_ok:
  assumes f: "1 \<le> freq" and li: "length ind = length x div nat freq"
    and i: "i < nat freq" and ir: "i < length repr"
  shows "bindE (for_loop [0..<length x div nat freq]
                  (\<lambda>j ind. wr ind (int j) (int j * freq + int i)) ind) (\<lambda>ind.
         bindE (subset_at x ind) (\<lambda>phase.
         bindE (wr repr (int i) (func phase)) (\<lambda>repr. Inr (repr, ind)))) =
         Inr (repr[i := func (map (\<lambda>j. x ! (j * nat freq + i)) [0..<length x div nat freq])],
              map (\<lambda>j. int j * freq + int i) [0..<length x div nat freq])"
proof -
  let ?c = "length x div nat freq"
  have inr: "\<forall>k\<in>set (map (\<lambda>j. int j * freq + int i) [0..<?c]). 0 \<le> k \<and> k < int (length x)"
  proof
    fix k assume "k \<in> set (map (\<lambda>j. int j * freq + int i) [0..<?c])"
    then obtain j where j: "j < ?c" and k: "k = int j * freq + int i" by auto
    have "j * nat freq + i < Suc j * nat freq" using i by simp
    also have "\<dots> \<le> ?c * nat freq" using j by (intro mult_le_mono1) simp
    also have "\<dots> \<le> length x" by simp
    finally have "int (j * nat freq + i) < int (length x)" by (simp only: of_nat_less_iff)
    moreover have "int (j * nat freq + i) = k" using f k by simp
    ultimately show "0 \<le> k \<and> k < int (length x)" by auto
  qed
  have "map (\<lambda>k. x ! nat k) (map (\<lambda>j. int j * freq + int i) [0..<?c]) =
        map (\<lambda>j. x ! (j * nat freq + i)) [0..<?c]"
  proof -
    have "\<And>j. nat (int j * freq + int i) = j * nat freq + i"
      using f by (simp add: nat_add_distrib nat_mult_distrib)
    then show ?thesis by simp
  qed
  then have sb: "subset_at x (map (\<lambda>j. int j * freq + int i) [0..<?c]) =
        Inr (map (\<lambda>j. x ! (j * nat freq + i)) [0..<?c])"
    using subset_at_in_range[OF inr] by simp
  show ?thesis
    using fill_loop[OF li, of "\<lambda>j. int j * freq + int i"] sb ir
    by (simp add: wr_def)
qed

lemma repr_seas_profile_eq:
  assumes f: "1 \<le> freq"
  shows "repr_seas_profile x freq func =
           Inr (map (\<lambda>i. func (map (\<lambda>j. x ! (j * nat freq + i)) [0..<length x div nat freq]))
                  [0..<nat freq])"
proof -
  let ?c = "length x div nat freq"
  let ?ph = "\<lambda>i. func (map (\<lambda>j. x ! (j * nat freq + i)) [0..<?c])"
  let ?body = "\<lambda>i (repr, ind).
                         bindE (for_loop [0..<?c]
                                  (\<lambda>j ind. wr ind (int j) (int j * freq + int i)) ind) (\<lambda>ind.
                         bindE (subset_at x ind) (\<lambda>phase.
                         bindE (wr repr (int i) (func phase)) (\<lambda>repr. Inr (repr, ind))))"
  have sd: "int (length x) sdiv freq = int ?c" using f
    by (simp add: signed_divide_int_def sgn_if zdiv_int)
  have "\<exists>s'. for_loop [0..<nat freq] ?body (replicate (nat freq) (Fin 0), replicate ?c (0::int)) = Inr s' \<and>
          (case s' of (r, ind) \<Rightarrow> length ind = ?c \<and> length r = nat freq \<and>
             take (nat freq) r = map ?ph [0..<nat freq])"
  proof (rule for_loop_upt_inv[where I="\<lambda>k (r, ind). length ind = ?c \<and> length r = nat freq \<and>
             take k r = map ?ph [0..<k]"], goal_cases)
    case 1
    show ?case by simp
  next
    case 2
    show ?case by simp
  next
    case (3 k s)
    obtain r ind where s: "s = (r, ind)" by (cases s)
    from 3 s have inv: "length ind = ?c" "length r = nat freq" "take k r = map ?ph [0..<k]"
      by simp_all
    have kr: "k < length r" using 3(2) inv(2) by simp
    have step: "?body k (r, ind) = Inr (r[k := ?ph k], map (\<lambda>j. int j * freq + int k) [0..<?c])"
      using seas_piece_ok[OF f inv(1) 3(2) kr, of func] by simp
    have "take (Suc k) (r[k := ?ph k]) = map ?ph [0..<Suc k]"
      using kr inv(3) by (simp add: take_Suc_conv_app_nth)
    then show ?case using s step inv by simp
  qed
  then obtain r ind where l: "for_loop [0..<nat freq] ?body (replicate (nat freq) (Fin 0), replicate ?c (0::int)) = Inr (r, ind)"
    and r: "length r = nat freq" "take (nat freq) r = map ?ph [0..<nat freq]"
    by auto
  from r have "r = map ?ph [0..<nat freq]" by simp
  then show ?thesis
    unfolding repr_seas_profile_def Let_def sd
    using f l by (simp add: alloc_def)
qed

text \<open>
  C6: for every sequence \<open>x\<close> of length \<open>n\<close>, every \<open>freq\<close> with \<open>1 \<le> freq \<le> n\<close> (so that
  the number of cycles \<open>n div freq\<close> is at least 1) and every aggregation function,
  \<open>repr_seas_profile\<close> returns \<open>freq\<close> values, and the value at phase \<open>i\<close> is the aggregate
  of the elements of \<open>x\<close> at the indices \<open>i, i + freq, \<dots>, i + (cycles - 1) * freq\<close>. Every
  such index is below \<open>cycles * freq\<close>, and the result is the same on \<open>x\<close> cut after
  \<open>cycles * freq\<close> elements: the incomplete last cycle is read by no phase. With
  \<open>freq = n\<close> and an aggregation function that maps a singleton to its element, the result
  is \<open>x\<close>.
\<close>

theorem repr_seas_profile_phases:
  assumes "1 \<le> freq" and "freq \<le> int (length x)"
  shows "\<exists>ys. repr_seas_profile x freq agg = Inr ys \<and> length ys = nat freq \<and>
           1 \<le> length x div nat freq \<and>
           (\<forall>i < nat freq.
              ys ! i = agg (map (\<lambda>j. x ! (i + j * nat freq)) [0..<length x div nat freq])) \<and>
           (\<forall>i < nat freq. \<forall>j < length x div nat freq.
              i + j * nat freq < length x div nat freq * nat freq) \<and>
           repr_seas_profile (take (length x div nat freq * nat freq) x) freq agg = Inr ys \<and>
           (freq = int (length x) \<and> (\<forall>v. agg [v] = v) \<longrightarrow> ys = x)"
proof -
  let ?f = "nat freq"
  let ?c = "length x div ?f"
  let ?ph = "\<lambda>x i. agg (map (\<lambda>j. x ! (j * ?f + i)) [0..<?c])"
  let ?ys = "map (?ph x) [0..<?f]"
  have f1: "1 \<le> ?f" "?f \<le> length x" using assms by simp_all
  have eq: "repr_seas_profile x freq agg = Inr ?ys" using assms(1) by (rule repr_seas_profile_eq)
  have c1: "1 \<le> ?c" using f1 by (simp add: Suc_le_eq div_greater_zero_iff)
  have ph: "\<forall>i < ?f. ?ys ! i = agg (map (\<lambda>j. x ! (i + j * ?f)) [0..<?c])"
    by (simp add: add.commute)
  have bound: "\<And>i j. i < ?f \<Longrightarrow> j < ?c \<Longrightarrow> i + j * ?f < ?c * ?f"
  proof -
    fix i j assume i: "i < ?f" and j: "j < ?c"
    have "i + j * ?f < Suc j * ?f" using i by simp
    also have "\<dots> \<le> ?c * ?f" using j by (intro mult_le_mono1) simp
    finally show "i + j * ?f < ?c * ?f" .
  qed
  have trail: "repr_seas_profile (take (?c * ?f) x) freq agg = Inr ?ys"
  proof -
    let ?t = "take (?c * ?f) x"
    have lt: "length ?t = ?c * ?f" by simp
    then have ct: "length ?t div ?f = ?c" using f1 by simp
    have "map (?ph ?t) [0..<?f] = ?ys"
    proof (rule map_cong[OF refl])
      fix i assume "i \<in> set [0..<?f]"
      then have i: "i < ?f" by simp
      have "map (\<lambda>j. ?t ! (j * ?f + i)) [0..<?c] = map (\<lambda>j. x ! (j * ?f + i)) [0..<?c]"
      proof (rule map_cong[OF refl])
        fix j assume "j \<in> set [0..<?c]"
        then have "j < ?c" by simp
        then have "j * ?f + i < ?c * ?f" using bound[OF i, of j] by (simp add: add.commute)
        then show "?t ! (j * ?f + i) = x ! (j * ?f + i)" by simp
      qed
      then show "?ph ?t i = ?ph x i" by (rule arg_cong)
    qed
    then show ?thesis
      using repr_seas_profile_eq[OF assms(1), of ?t agg] unfolding ct by simp
  qed
  have whole: "freq = int (length x) \<and> (\<forall>v. agg [v] = v) \<longrightarrow> ?ys = x"
  proof
    assume h: "freq = int (length x) \<and> (\<forall>v. agg [v] = v)"
    then have fl: "?f = length x" by simp
    then have "?c = 1" using f1 by (auto simp add: Suc_le_eq)
    then have "?ys = map (\<lambda>i. x ! i) [0..<length x]" using h fl by simp
    then show "?ys = x" by (simp add: map_nth)
  qed
  show ?thesis using eq c1 ph bound trail whole by (intro exI[of _ ?ys]) simp
qed

theorem repr_seas_profile_phases_witness:
  "\<exists>ys. repr_seas_profile [Fin 1, Fin 2, Fin 3, Fin 4, Fin 5] 2 accumulate = Inr ys \<and>
        length ys = 2 \<and> ys ! 0 = Fin 4 \<and> ys ! 1 = Fin 6 \<and>
        repr_seas_profile [Fin 1, Fin 2, Fin 3, Fin 4] 2 accumulate = Inr ys \<and>
        repr_seas_profile [Fin 1, Fin 2, Fin 3, Fin 4, Fin 5] 5 max_agg =
          Inr [Fin 1, Fin 2, Fin 3, Fin 4, Fin 5]"
proof -
  let ?X = "[Fin 1, Fin 2, Fin 3, Fin 4, Fin 5]"
  have h1: "(1::int) \<le> 2" and h2: "(2::int) \<le> int (length ?X)" by simp_all
  from repr_seas_profile_phases[OF h1 h2, of accumulate] obtain ys where
    A: "repr_seas_profile ?X 2 accumulate = Inr ys" and
    B: "length ys = nat 2" and
    C: "\<forall>i < nat 2. ys ! i = accumulate (map (\<lambda>j. ?X ! (i + j * nat 2)) [0..<length ?X div nat 2])" and
    D: "repr_seas_profile (take (length ?X div nat 2 * nat 2) ?X) 2 accumulate = Inr ys"
    by blast
  have lenX: "length ?X div nat 2 = 2" by simp
  have up: "[0..<2] = [0, 1]" by (simp add: upt_rec)
  have s1: "accumulate [Fin 1, Fin 3] = Fin 4" by code_simp
  have s2: "accumulate [Fin 2, Fin 4] = Fin 6" by code_simp
  have y0: "ys ! 0 = Fin 4" using C[rule_format, of 0] unfolding lenX up by (simp add: s1)
  have y1: "ys ! 1 = Fin 6" using C[rule_format, of 1] unfolding lenX up by (simp add: s2)
  have tk: "take (length ?X div nat 2 * nat 2) ?X = [Fin 1, Fin 2, Fin 3, Fin 4]" by simp
  have g1: "(1::int) \<le> 5" and g2: "(5::int) \<le> int (length ?X)" by simp_all
  have id: "repr_seas_profile ?X 5 max_agg = Inr ?X"
    using repr_seas_profile_phases[OF g1 g2, of max_agg]
    by (auto simp add: max_agg_singleton)
  show ?thesis using A B y0 y1 D id unfolding tk by simp
qed

section \<open>medianC\<close>








lemma dbl_ovf_pos: "0 < dbl_ovf"
  by (simp add: dbl_ovf_def)









section \<open>The run lengths of the zeros and of the ones\<close>

lemma filter_take_step:
  assumes "i < length zl"
  shows "map snd (filter Q (take (Suc i) zl)) =
         map snd (filter Q (take i zl)) @ (if Q (zl ! i) then [snd (zl ! i)] else [])"
  using assms by (simp add: take_Suc_conv_app_nth)

lemma filter_take_length_le:
  "length (filter Q (take i zl)) \<le> length (filter Q zl)"
proof -
  have "filter Q zl = filter Q (take i zl) @ filter Q (drop i zl)"
    by (metis append_take_drop_id filter_append)
  then show ?thesis by simp
qed

lemma pad_write:
  assumes "length A < M"
  shows "(A @ replicate (M - length A) z)[length A := l] =
         (A @ [l]) @ replicate (M - length (A @ [l])) z"
proof -
  have "M - length A = Suc (M - Suc (length A))" using assms by simp
  then have "A @ replicate (M - length A) z = A @ z # replicate (M - Suc (length A)) z"
    by simp
  then show ?thesis by (simp add: list_update_length)
qed

lemma count_loop:
  assumes lv: "length vals = N"
  shows "for_loop [0..<N]
              (\<lambda>i (j, k).
                 bindE (rd vals (int i)) (\<lambda>v.
                 if v = 0 then Inr (j + 1, k) else Inr (j, k + 1)))
              (j0, k0) =
         Inr (j0 + int (length (filter (\<lambda>v. v = 0) vals)),
              k0 + int (length (filter (\<lambda>v. v \<noteq> 0) vals)))"
proof -
  have "\<exists>s'. for_loop [0..<N]
              (\<lambda>i (j, k).
                 bindE (rd vals (int i)) (\<lambda>v.
                 if v = 0 then Inr (j + 1, k) else Inr (j, k + 1)))
              (j0, k0) = Inr s' \<and>
          (case s' of (j, k) \<Rightarrow>
             j = j0 + int (length (filter (\<lambda>v. v = 0) (take N vals))) \<and>
             k = k0 + int (length (filter (\<lambda>v. v \<noteq> 0) (take N vals))))"
  proof (rule for_loop_upt_inv[where I="\<lambda>i (j, k).
             j = j0 + int (length (filter (\<lambda>v. v = 0) (take i vals))) \<and>
             k = k0 + int (length (filter (\<lambda>v. v \<noteq> 0) (take i vals)))"], goal_cases)
    case 1
    show ?case by simp
  next
    case 2
    show ?case by simp
  next
    case (3 i s)
    obtain j k where s: "s = (j, k)" by (cases s)
    have "rd vals (int i) = Inr (vals ! i)" using 3 lv by (simp add: rd_def)
    then show ?case using 3 s lv by (simp add: take_Suc_conv_app_nth)
  qed
  then show ?thesis using lv by auto
qed

lemma fill_runs_loop:
  assumes lv: "length vals = N" and ll: "length lens = N"
    and Z: "Z = map snd (filter (\<lambda>(v, l). v = 0) (zip vals lens))"
    and W: "W = map snd (filter (\<lambda>(v, l). v \<noteq> 0) (zip vals lens))"
    and MZ: "length Z \<le> MZ" and MW: "length W \<le> MW"
  shows "for_loop [0..<N]
       (\<lambda>i (zeros, ones, j, k).
          bindE (rd vals (int i)) (\<lambda>v.
          bindE (rd lens (int i)) (\<lambda>l.
          if v = 0
          then bindE (wr zeros j l) (\<lambda>zeros. Inr (zeros, ones, j + 1, k))
          else bindE (wr ones k l) (\<lambda>ones. Inr (zeros, ones, j, k + 1)))))
       (replicate MZ 0, replicate MW 0, 0, 0) =
     Inr (Z @ replicate (MZ - length Z) 0, W @ replicate (MW - length W) 0,
          int (length Z), int (length W))"
proof -
  let ?zl = "zip vals lens"
  let ?Zi = "\<lambda>i. map snd (filter (\<lambda>(v, l). v = 0) (take i ?zl))"
  let ?Wi = "\<lambda>i. map snd (filter (\<lambda>(v, l). v \<noteq> 0) (take i ?zl))"
  have lz: "length ?zl = N" using lv ll by simp
  have "\<exists>s'. for_loop [0..<N]
       (\<lambda>i (zeros, ones, j, k).
          bindE (rd vals (int i)) (\<lambda>v.
          bindE (rd lens (int i)) (\<lambda>l.
          if v = 0
          then bindE (wr zeros j l) (\<lambda>zeros. Inr (zeros, ones, j + 1, k))
          else bindE (wr ones k l) (\<lambda>ones. Inr (zeros, ones, j, k + 1)))))
       (replicate MZ 0, replicate MW 0, 0, 0) = Inr s' \<and>
       (case s' of (zeros, ones, j, k) \<Rightarrow>
          zeros = ?Zi N @ replicate (MZ - length (?Zi N)) 0 \<and>
          ones = ?Wi N @ replicate (MW - length (?Wi N)) 0 \<and>
          j = int (length (?Zi N)) \<and> k = int (length (?Wi N)))"
  proof (rule for_loop_upt_inv[where I="\<lambda>i (zeros, ones, j, k).
          zeros = ?Zi i @ replicate (MZ - length (?Zi i)) 0 \<and>
          ones = ?Wi i @ replicate (MW - length (?Wi i)) 0 \<and>
          j = int (length (?Zi i)) \<and> k = int (length (?Wi i))"], goal_cases)
    case 1
    show ?case by simp
  next
    case 2
    show ?case by simp
  next
    case (3 i s)
    obtain zeros ones j k where s: "s = (zeros, ones, j, k)" by (cases s)
    from 3(3) s have inv: "zeros = ?Zi i @ replicate (MZ - length (?Zi i)) 0"
      "ones = ?Wi i @ replicate (MW - length (?Wi i)) 0"
      "j = int (length (?Zi i))" "k = int (length (?Wi i))" by simp_all
    have i: "i < length ?zl" using 3(2) lz by simp
    have zi: "?zl ! i = (vals ! i, lens ! i)" using 3(2) lv ll by simp
    have rv: "rd vals (int i) = Inr (vals ! i)" using 3(2) lv by (simp add: rd_def)
    have rl: "rd lens (int i) = Inr (lens ! i)" using 3(2) ll by (simp add: rd_def)
    have Zs: "?Zi (Suc i) = ?Zi i @ (if vals ! i = 0 then [lens ! i] else [])"
      using filter_take_step[OF i, of "\<lambda>(v, l). v = 0"] zi by simp
    have Ws: "?Wi (Suc i) = ?Wi i @ (if vals ! i \<noteq> 0 then [lens ! i] else [])"
      using filter_take_step[OF i, of "\<lambda>(v, l). v \<noteq> 0"] zi by simp
    show ?case
    proof (cases "vals ! i = 0")
      case True
      have "length (?Zi (Suc i)) \<le> length Z"
        unfolding Z length_map by (rule filter_take_length_le)
      then have lt: "length (?Zi i) < MZ" using Zs True MZ by simp
      have "wr zeros j (lens ! i) = Inr (zeros[length (?Zi i) := lens ! i])"
        using lt inv(1,3) by (simp add: wr_def)
      also have "zeros[length (?Zi i) := lens ! i] =
                 (?Zi i @ [lens ! i]) @ replicate (MZ - length (?Zi i @ [lens ! i])) 0"
        unfolding inv(1) using lt by (rule pad_write)
      finally have "wr zeros j (lens ! i) =
          Inr (?Zi (Suc i) @ replicate (MZ - length (?Zi (Suc i))) 0)"
        using Zs True by simp
      then show ?thesis using s rv rl True inv Zs Ws by simp
    next
      case False
      have "length (?Wi (Suc i)) \<le> length W"
        unfolding W length_map by (rule filter_take_length_le)
      then have lt: "length (?Wi i) < MW" using Ws False MW by simp
      have "wr ones k (lens ! i) = Inr (ones[length (?Wi i) := lens ! i])"
        using lt inv(2,4) by (simp add: wr_def)
      also have "ones[length (?Wi i) := lens ! i] =
                 (?Wi i @ [lens ! i]) @ replicate (MW - length (?Wi i @ [lens ! i])) 0"
        unfolding inv(2) using lt by (rule pad_write)
      finally have "wr ones k (lens ! i) =
          Inr (?Wi (Suc i) @ replicate (MW - length (?Wi (Suc i))) 0)"
        using Ws False by simp
      then show ?thesis using s rv rl False inv Zs Ws by simp
    qed
  qed
  then show ?thesis using lz Z W by auto
qed

lemma length_filter_zip_fst:
  assumes "length vals = length lens"
  shows "length (filter (\<lambda>(v, l). P v) (zip vals lens)) = length (filter P vals)"
  using assms by (induction vals lens rule: list_induct2) simp_all

lemma split_runs_eq:
  assumes lv: "length vals = N" and ll: "length lens = N" and j0: "0 \<le> j0" and k0: "0 \<le> k0"
  shows "split_runs vals lens (int N) j0 k0 =
           Inr (map snd (filter (\<lambda>(v, l). v = 0) (zip vals lens)) @ replicate (nat j0) 0,
                map snd (filter (\<lambda>(v, l). v \<noteq> 0) (zip vals lens)) @ replicate (nat k0) 0,
                int (length (filter (\<lambda>(v, l). v = 0) (zip vals lens))),
                int (length (filter (\<lambda>(v, l). v \<noteq> 0) (zip vals lens))))"
proof -
  let ?Z = "map snd (filter (\<lambda>(v, l). v = 0) (zip vals lens))"
  let ?W = "map snd (filter (\<lambda>(v, l). v \<noteq> 0) (zip vals lens))"
  have lZ: "length (filter (\<lambda>v. v = 0) vals) = length ?Z"
    using length_filter_zip_fst[of vals lens "\<lambda>v. v = 0"] lv ll by simp
  have lW: "length (filter (\<lambda>v. v \<noteq> 0) vals) = length ?W"
    using length_filter_zip_fst[of vals lens "\<lambda>v. v \<noteq> 0"] lv ll by simp
  let ?MZ = "nat j0 + length ?Z"
  let ?MW = "nat k0 + length ?W"
  have a1: "alloc (j0 + int (length ?Z)) (0::int) = Inr (replicate ?MZ 0)"
    using j0 by (simp add: alloc_def nat_add_distrib)
  have a2: "alloc (k0 + int (length ?W)) (0::int) = Inr (replicate ?MW 0)"
    using k0 by (simp add: alloc_def nat_add_distrib)
  have fl: "for_loop [0..<N]
       (\<lambda>i (zeros, ones, j, k).
          bindE (rd vals (int i)) (\<lambda>v.
          bindE (rd lens (int i)) (\<lambda>l.
          if v = 0
          then bindE (wr zeros j l) (\<lambda>zeros. Inr (zeros, ones, j + 1, k))
          else bindE (wr ones k l) (\<lambda>ones. Inr (zeros, ones, j, k + 1)))))
       (replicate ?MZ 0, replicate ?MW 0, 0, 0) =
     Inr (?Z @ replicate (?MZ - length ?Z) 0, ?W @ replicate (?MW - length ?W) 0,
          int (length ?Z), int (length ?W))"
    by (rule fill_runs_loop[OF lv ll refl refl]) simp_all
  show ?thesis
    unfolding split_runs_def nat_int count_loop[OF lv] lZ lW bindE_Inr prod.case a1 a2 fl
    by simp
qed

section \<open>repr\_feaclip\<close>

lemma wr_list8:
  "wr [a0, a1, a2, a3, a4, a5, a6, a7] 0 v = Inr [v, a1, a2, a3, a4, a5, a6, a7]"
  "wr [a0, a1, a2, a3, a4, a5, a6, a7] 1 v = Inr [a0, v, a2, a3, a4, a5, a6, a7]"
  "wr [a0, a1, a2, a3, a4, a5, a6, a7] 2 v = Inr [a0, a1, v, a3, a4, a5, a6, a7]"
  "wr [a0, a1, a2, a3, a4, a5, a6, a7] 3 v = Inr [a0, a1, a2, v, a4, a5, a6, a7]"
  "wr [a0, a1, a2, a3, a4, a5, a6, a7] 4 v = Inr [a0, a1, a2, a3, v, a5, a6, a7]"
  "wr [a0, a1, a2, a3, a4, a5, a6, a7] 5 v = Inr [a0, a1, a2, a3, a4, v, a6, a7]"
  "wr [a0, a1, a2, a3, a4, a5, a6, a7] 6 v = Inr [a0, a1, a2, a3, a4, a5, v, a7]"
  "wr [a0, a1, a2, a3, a4, a5, a6, a7] 7 v = Inr [a0, a1, a2, a3, a4, a5, a6, v]"
  by (simp_all add: wr_def numeral_eq_Suc)

lemma alloc8: "alloc 8 v = Inr [v, v, v, v, v, v, v, v]"
  by (simp add: alloc_def numeral_eq_Suc)

lemma max_element_Max: "ls \<noteq> [] \<Longrightarrow> max_element ls = Inr (Max (set ls))"
proof (cases ls)
  case Nil
  then show "ls \<noteq> [] \<Longrightarrow> max_element ls = Inr (Max (set ls))" by simp
next
  case (Cons a list)
  have "Max (set (a # list)) = fold max list a" by (rule Max.set_eq_fold)
  then show ?thesis using Cons by simp
qed

lemma dadd_ovf:
  assumes "0 \<le> a" and "0 \<le> b"
  shows "dadd (ovf a) (ovf b) = ovf (a + b)"
  using assms dbl_ovf_pos by (auto simp add: ovf_def)

lemma dbl_of_int_zero: "dbl_of_int 0 = Fin 0"
  using dbl_ovf_pos by (simp add: dbl_of_int_def ovf_def)

lemma dbl_of_int_one: "dbl_of_int 1 = Fin 1"
  by (simp add: dbl_of_int_def ovf_def dbl_ovf_def)

lemma accumulate_ints:
  assumes "\<forall>l\<in>set ls. 0 \<le> l"
  shows "accumulate (map dbl_of_int ls) = dbl_of_int (sum_list ls)"
proof -
  have "\<And>a. 0 \<le> a \<Longrightarrow> foldl dadd (dbl_of_int a) (map dbl_of_int ls) = dbl_of_int (a + sum_list ls)"
    using assms
  proof (induction ls)
    case Nil
    show ?case by simp
  next
    case (Cons l ls)
    have l: "0 \<le> l" using Cons.prems(2) by simp
    have "dadd (dbl_of_int a) (dbl_of_int l) = dbl_of_int (a + l)"
      using dadd_ovf[of "of_int a" "of_int l"] Cons.prems(1) l by (simp add: dbl_of_int_def)
    moreover have "foldl dadd (dbl_of_int (a + l)) (map dbl_of_int ls) = dbl_of_int (a + l + sum_list ls)"
      using Cons.prems(1,2) l by (intro Cons.IH) simp_all
    ultimately show ?case by (simp add: add.assoc)
  qed
  from this[of 0] show ?thesis by (simp add: accumulate_def dbl_of_int_zero)
qed

lemma lengths_with_subset: "set (lengths_with b (zip vs ls)) \<subseteq> set ls"
  unfolding lengths_with_def by (auto dest: set_zip_rightD)

lemma repr_feaclip_of_runs:
  assumes cl: "clipping x = Inr bits" and rl: "rleC (map dbl_of_int bits) = Inr r"
    and len: "length (lengths r) = length (values r)" and ne: "values r \<noteq> []"
    and bin: "\<forall>v\<in>set (map int_of_dbl (values r)). v = 0 \<or> v = 1"
    and pos: "\<forall>l\<in>set (lengths r). 1 \<le> l"
  shows "repr_feaclip x = Inr (level_features (runs_of r))"
proof -
  let ?vals = "map int_of_dbl (values r)"
  let ?lens = "lengths r"
  let ?N = "length ?vals"
  let ?runs = "zip ?vals ?lens"
  have N1: "1 \<le> ?N" using ne by (cases "values r") simp_all
  have lne: "?lens \<noteq> []" "?vals \<noteq> []" using ne len by auto
  have ll: "length ?lens = ?N" using len by simp
  have lr: "length ?runs = ?N" using len by simp
  have hdr: "hd ?runs = (?vals ! 0, ?lens ! 0)"
    using lne by (simp add: hd_zip hd_conv_nth)
  have lastr: "last ?runs = (?vals ! (?N - 1), ?lens ! (?N - 1))"
    using lne ll by (simp add: last_zip last_conv_nth)
  have rv0: "rd ?vals 0 = Inr (fst (hd ?runs))" using N1 hdr ne lne by (simp add: rd_def)
  have rl0: "rd ?lens 0 = Inr (snd (hd ?runs))" using N1 ll hdr ne lne by (simp add: rd_def)
  have rvN: "rd ?vals (int ?N - 1) = Inr (fst (last ?runs))"
    using N1 lastr ne lne by (simp add: rd_def nat_diff_distrib)
  have rlN: "rd ?lens (int ?N - 1) = Inr (snd (last ?runs))"
    using N1 ll lastr ne lne by (simp add: rd_def nat_diff_distrib)
  have ones: "filter (\<lambda>(v, l). v \<noteq> 0) ?runs = filter (\<lambda>(v, l). v = 1) ?runs"
  proof (rule filter_cong[OF refl])
    fix p assume "p \<in> set ?runs"
    then have "(fst p, snd p) \<in> set ?runs" by simp
    then have "fst p \<in> set ?vals" by (rule set_zip_leftD)
    then have "fst p = 0 \<or> fst p = 1" using bin by blast
    then show "(case p of (v, l) \<Rightarrow> v \<noteq> 0) = (case p of (v, l) \<Rightarrow> v = 1)"
      by (cases p) auto
  qed
  have sp: "split_runs ?vals ?lens (int ?N) 0 0 =
              Inr (lengths_with 0 ?runs, lengths_with 1 ?runs,
                   int (length (lengths_with 0 ?runs)), int (length (lengths_with 1 ?runs)))"
    using split_runs_eq[OF refl ll, of 0 0] ones by (simp add: lengths_with_def)
  have "\<forall>l\<in>set (lengths_with 1 ?runs). 0 \<le> l"
    using lengths_with_subset[of 1 ?vals ?lens] pos by fastforce
  then have acc: "accumulate (map dbl_of_int (lengths_with 1 ?runs)) =
                  dbl_of_int (sum_list (lengths_with 1 ?runs))"
    by (rule accumulate_ints)
  show ?thesis
    unfolding repr_feaclip_def Let_def cl rl bindE_Inr alloc8 wr_list8 rv0 rl0 rvN rlN sp prod.case
    by (simp add: wr_list8 max_element_Max acc level_features_def runs_of_def
        max_or_zero_def dbl_of_int_zero len)
qed

lemma clipping_bits:
  assumes "clipping x = Inr bits"
  shows "length bits = length x \<and> (\<forall>b\<in>set bits. b = 0 \<or> b = 1)"
  using assms unfolding clipping_eq by auto

lemma int_of_dbl_bits:
  assumes "\<forall>b\<in>set bits. b = 0 \<or> b = 1" and "set vs \<subseteq> set (map dbl_of_int bits)"
  shows "\<forall>v\<in>set (map int_of_dbl vs). v = 0 \<or> v = 1"
proof
  fix v assume "v \<in> set (map int_of_dbl vs)"
  then obtain d where d: "d \<in> set vs" "v = int_of_dbl d" by auto
  then obtain b where "b \<in> set bits" "d = dbl_of_int b" using assms(2) by auto
  then have "d = Fin 0 \<or> d = Fin 1" using assms(1) dbl_of_int_zero dbl_of_int_one by auto
  then show "v = 0 \<or> v = 1" using d(2) by auto
qed

lemma dbl_of_int_no_NaN: "NaN \<notin> set (map dbl_of_int bits)"
  by (auto simp add: dbl_of_int_def ovf_def)

lemma dbl_of_int_no_NZero: "NZero \<notin> set (map dbl_of_int bits)"
  by (auto simp add: dbl_of_int_def ovf_def)

text \<open>
  C3: for every non-empty sequence \<open>x\<close> (then \<open>clipping x\<close> is non-empty too), \<open>clipping\<close>
  and \<open>rleC\<close> on its result succeed, every run has the value 0 or 1, and \<open>repr_feaclip x\<close>
  is the vector of the eight features of these runs: the greatest length and the sum of the
  lengths of the runs of ones, the greatest length of the runs of zeros (0 where there is no
  such run), the number of runs less one, and the length of the first and of the last run
  under the zeros, then under the ones (0 where the run has the other value). With a single
  run the features of the first and of the last run agree.
\<close>

theorem repr_feaclip_features:
  assumes "x \<noteq> []"
  shows "\<exists>bits r. clipping x = Inr bits \<and> bits \<noteq> [] \<and>
           rleC (map dbl_of_int bits) = Inr r \<and> runs_of r \<noteq> [] \<and>
           (\<forall>(v, l) \<in> set (runs_of r). v = 0 \<or> v = 1) \<and>
           repr_feaclip x = Inr (level_features (runs_of r)) \<and>
           length (level_features (runs_of r)) = 8 \<and>
           (length (runs_of r) = 1 \<longrightarrow>
              level_features (runs_of r) ! 4 = level_features (runs_of r) ! 5 \<and>
              level_features (runs_of r) ! 6 = level_features (runs_of r) ! 7)"
proof -
  obtain bits where cl: "clipping x = Inr bits" using clipping_eq by blast
  from clipping_bits[OF cl] assms have bits: "bits \<noteq> []" "\<forall>b\<in>set bits. b = 0 \<or> b = 1"
    by auto
  have yne: "map dbl_of_int bits \<noteq> []" using bits(1) by simp
  from rleC_runs[OF yne dbl_of_int_no_NaN dbl_of_int_no_NZero] obtain r where
    r: "rleC (map dbl_of_int bits) = Inr r" "length (lengths r) = length (values r)"
       "values r \<noteq> []" "set (values r) \<subseteq> set (map dbl_of_int bits)"
       "\<forall>l\<in>set (lengths r). 1 \<le> l"
    by blast
  have bin: "\<forall>v\<in>set (map int_of_dbl (values r)). v = 0 \<or> v = 1"
    using bits(2) r(4) by (rule int_of_dbl_bits)
  have rne: "runs_of r \<noteq> []" using r(2,3) by (cases "values r"; cases "lengths r") (simp_all add: runs_of_def)
  have vals: "\<forall>(v, l) \<in> set (runs_of r). v = 0 \<or> v = 1"
  proof (clarify)
    fix v l assume "(v, l) \<in> set (runs_of r)" and "v \<noteq> 1"
    then have "v \<in> set (map int_of_dbl (values r))"
      unfolding runs_of_def by (metis set_zip_leftD)
    then show "v = 0" using bin \<open>v \<noteq> 1\<close> by blast
  qed
  have fe: "repr_feaclip x = Inr (level_features (runs_of r))"
    using cl r(1,2,3) bin r(5) by (rule repr_feaclip_of_runs)
  have l8: "length (level_features (runs_of r)) = 8" by (simp add: level_features_def)
  have single: "length (runs_of r) = 1 \<longrightarrow>
              level_features (runs_of r) ! 4 = level_features (runs_of r) ! 5 \<and>
              level_features (runs_of r) ! 6 = level_features (runs_of r) ! 7"
  proof
    assume "length (runs_of r) = 1"
    then obtain p where "runs_of r = [p]" by (cases "runs_of r") simp_all
    then show "level_features (runs_of r) ! 4 = level_features (runs_of r) ! 5 \<and>
              level_features (runs_of r) ! 6 = level_features (runs_of r) ! 7"
      by (simp add: level_features_def)
  qed
  show ?thesis using cl bits(1) r(1) rne vals fe l8 single by blast
qed

lemma repr_feaclip_example:
  "repr_feaclip [Fin 1, Fin 3, Fin 2, Fin 5, Fin 4] =
     Inr [Fin 2, Fin 2, Fin 3, Fin 1, Fin 3, Fin 0, Fin 0, Fin 2]"
  by code_simp

lemma repr_feaclip_single_run:
  "repr_feaclip [Fin 1, Fin 1, Fin 1] =
     Inr [Fin 0, Fin 0, Fin 3, Fin 0, Fin 3, Fin 3, Fin 0, Fin 0]"
  by code_simp

theorem repr_feaclip_features_witness:
  "(\<exists>bits r. clipping [Fin 1, Fin 3, Fin 2, Fin 5, Fin 4] = Inr bits \<and>
      rleC (map dbl_of_int bits) = Inr r \<and>
      level_features (runs_of r) = [Fin 2, Fin 2, Fin 3, Fin 1, Fin 3, Fin 0, Fin 0, Fin 2]) \<and>
   (\<exists>bits r. clipping [Fin 1, Fin 1, Fin 1] = Inr bits \<and>
      rleC (map dbl_of_int bits) = Inr r \<and>
      level_features (runs_of r) = [Fin 0, Fin 0, Fin 3, Fin 0, Fin 3, Fin 3, Fin 0, Fin 0])"
  using repr_feaclip_features[of "[Fin 1, Fin 3, Fin 2, Fin 5, Fin 4]"]
    repr_feaclip_features[of "[Fin 1, Fin 1, Fin 1]"]
  unfolding repr_feaclip_example repr_feaclip_single_run
  by auto

section \<open>trending\<close>

lemma trending_eq:
  assumes "x \<noteq> []"
  shows "trending x =
           Inr (map (\<lambda>i. if dless (dsub (x ! i) (x ! Suc i)) (Fin 0) then 1 else 0)
                  [0..<length x - 1])"
proof -
  let ?m = "length x - 1"
  let ?f = "\<lambda>i. if dless (dsub (x ! i) (x ! Suc i)) (Fin 0) then 1 else (0::int)"
  have n1: "int (length x) - 1 = int ?m" using assms by (cases x) simp_all
  have "\<exists>r. for_loop [0..<?m]
           (\<lambda>i repr.
              bindE (rd x (int i)) (\<lambda>a.
              bindE (rd x (int i + 1)) (\<lambda>b.
              if dless (dsub a b) (Fin 0) then wr repr (int i) 1 else wr repr (int i) 0)))
           (replicate ?m 0) = Inr r \<and>
         (length r = ?m \<and> take ?m r = map ?f [0..<?m])"
  proof (rule for_loop_upt_inv[where I="\<lambda>i r. length r = ?m \<and> take i r = map ?f [0..<i]"], goal_cases)
    case 1
    show ?case by simp
  next
    case 2
    show ?case by simp
  next
    case (3 i s)
    have ra: "rd x (int i) = Inr (x ! i)" using 3(2) by (simp add: rd_def)
    have rb: "rd x (int i + 1) = Inr (x ! Suc i)" using 3(2) by (simp add: rd_def nat_add_distrib)
    have w: "\<And>v. wr s (int i) v = Inr (s[i := v])" using 3 by (simp add: wr_def)
    have "take (Suc i) (s[i := ?f i]) = map ?f [0..<Suc i]"
      using 3 by (simp add: take_Suc_conv_app_nth)
    then show ?case using ra rb w 3 by auto
  qed
  then show ?thesis
    unfolding trending_def Let_def n1 by (auto simp add: alloc_def)
qed

lemma trending_bits:
  assumes "x \<noteq> []"
  shows "\<exists>bits. trending x = Inr bits \<and> length bits = length x - 1 \<and>
           (\<forall>b\<in>set bits. b = 0 \<or> b = 1)"
  unfolding trending_eq[OF assms] by auto

lemma piece_runs_ok:
  assumes "2 \<le> length blk"
  shows "\<exists>bits r. trending blk = Inr bits \<and> rleC (map dbl_of_int bits) = Inr r \<and>
           length (lengths r) = length (values r) \<and>
           (\<forall>v\<in>set (map int_of_dbl (values r)). v = 0 \<or> v = 1)"
proof -
  have "blk \<noteq> []" using assms by auto
  from trending_bits[OF this] obtain bits where b: "trending blk = Inr bits"
    "length bits = length blk - 1" "\<forall>b\<in>set bits. b = 0 \<or> b = 1" by blast
  have "map dbl_of_int bits \<noteq> []" using b(2) assms by auto
  from rleC_runs[OF this dbl_of_int_no_NaN dbl_of_int_no_NZero] obtain r where
    r: "rleC (map dbl_of_int bits) = Inr r" "length (lengths r) = length (values r)"
       "set (values r) \<subseteq> set (map dbl_of_int bits)" by blast
  have "\<forall>v\<in>set (map int_of_dbl (values r)). v = 0 \<or> v = 1"
    using b(3) r(3) by (rule int_of_dbl_bits)
  then show ?thesis using b(1) r(1,2) by blast
qed

section \<open>repr\_featrend\<close>

lemma featrend_piece_ok:
  assumes np2: "2 \<le> np" and fits: "j * np + np \<le> length s" and lx: "length x_ind = np"
    and lr: "2 * j + 1 < length repr" and no: "0 \<le> n_o" and nz: "0 \<le> n_z"
  shows "featrend_piece s agg (int np) j (repr, x_ind, n_o, n_z) =
           Inr (repr[2 * j := agg_or_zero agg (lengths_with 1 (piece_runs s np j) @ replicate (nat n_o) 0),
                     2 * j + 1 := agg_or_zero agg (lengths_with 0 (piece_runs s np j) @ replicate (nat n_z) 0)],
                map (\<lambda>i. int i + int np * int j) [0..<np],
                int (length (lengths_with 1 (piece_runs s np j))),
                int (length (lengths_with 0 (piece_runs s np j))))"
proof -
  let ?blk = "take np (drop (j * np) s)"
  have fl: "for_loop [0..<np] (\<lambda>i x_ind. wr x_ind (int i) (int i + int np * int j)) x_ind =
              Inr (map (\<lambda>i. int i + int np * int j) [0..<np])"
    using lx by (rule fill_loop)
  have meq: "(\<lambda>i. int i + int np * int j) = (\<lambda>i. int (j * np) + int i)"
    by (rule ext) (simp add: mult.commute)
  have sb: "subset_at s (map (\<lambda>i. int i + int np * int j) [0..<np]) = Inr ?blk"
    unfolding meq using fits by (rule subset_at_block)
  have "2 \<le> length ?blk" using np2 fits by simp
  from piece_runs_ok[OF this] obtain bits r where
    br: "trending ?blk = Inr bits" "rleC (map dbl_of_int bits) = Inr r"
        "length (lengths r) = length (values r)"
        "\<forall>v\<in>set (map int_of_dbl (values r)). v = 0 \<or> v = 1" by blast
  let ?vals = "map int_of_dbl (values r)"
  let ?runs = "zip ?vals (lengths r)"
  have pr: "piece_runs s np j = ?runs"
    using br(1,2) by (simp add: piece_runs_def runs_of_def)
  have ones: "filter (\<lambda>(v, l). v \<noteq> 0) ?runs = filter (\<lambda>(v, l). v = 1) ?runs"
  proof (rule filter_cong[OF refl])
    fix p assume "p \<in> set ?runs"
    then have "(fst p, snd p) \<in> set ?runs" by simp
    then have "fst p \<in> set ?vals" by (rule set_zip_leftD)
    then have "fst p = 0 \<or> fst p = 1" using br(4) by blast
    then show "(case p of (v, l) \<Rightarrow> v \<noteq> 0) = (case p of (v, l) \<Rightarrow> v = 1)"
      by (cases p) auto
  qed
  have ll: "length (lengths r) = length ?vals" using br(3) by simp
  have sp: "split_runs ?vals (lengths r) (int (length ?vals)) n_z n_o =
              Inr (lengths_with 0 ?runs @ replicate (nat n_z) 0,
                   lengths_with 1 ?runs @ replicate (nat n_o) 0,
                   int (length (lengths_with 0 ?runs)), int (length (lengths_with 1 ?runs)))"
    using split_runs_eq[OF refl ll nz no] ones by (simp add: lengths_with_def)
  have w1: "\<And>v. wr repr (int j * 2) v = Inr (repr[2 * j := v])"
    using lr by (simp add: wr_def nat_mult_distrib mult.commute)
  have w2: "\<And>v rp. length rp = length repr \<Longrightarrow> wr rp (int j * 2 + 1) v = Inr (rp[2 * j + 1 := v])"
    using lr by (simp add: wr_def nat_add_distrib nat_mult_distrib mult.commute)
  show ?thesis
    unfolding featrend_piece_def prod.case nat_int fl bindE_Inr sb br(1) br(2) Let_def sp pr
    by (simp add: w1 w2 agg_or_zero_def)
qed

lemma take_two_updates:
  assumes "2 * j + 1 < length r"
  shows "take (2 * Suc j) (r[2 * j := a, 2 * j + 1 := b]) = take (2 * j) r @ [a, b]"
proof -
  let ?r = "r[2 * j := a, 2 * j + 1 := b]"
  have l: "length ?r = length r" by simp
  have "take (Suc (Suc (2 * j))) ?r = take (Suc (2 * j)) ?r @ [?r ! Suc (2 * j)]"
    using assms l by (simp add: take_Suc_conv_app_nth)
  also have "take (Suc (2 * j)) ?r = take (2 * j) ?r @ [?r ! (2 * j)]"
    using assms l by (simp add: take_Suc_conv_app_nth)
  finally show ?thesis using assms by simp
qed

lemma featrend_loop:
  assumes np2: "2 \<le> np" and fits: "P * np \<le> length s" and lx: "length x_ind = np"
    and lr: "length repr = 2 * P"
  shows "\<exists>st. for_loop [0..<P] (featrend_piece s agg (int np)) (repr, x_ind, 0, 0) = Inr st \<and>
           fst st = concat (map (\<lambda>j. [agg_or_zero agg
                         (lengths_with 1 (piece_runs s np j) @ replicate (carried 1 s np j) 0),
                       agg_or_zero agg
                         (lengths_with 0 (piece_runs s np j) @ replicate (carried 0 s np j) 0)])
               [0..<P])"
proof -
  let ?pf = "\<lambda>j. [agg_or_zero agg
                         (lengths_with 1 (piece_runs s np j) @ replicate (carried 1 s np j) 0),
                       agg_or_zero agg
                         (lengths_with 0 (piece_runs s np j) @ replicate (carried 0 s np j) 0)]"
  have "\<exists>st. for_loop [0..<P] (featrend_piece s agg (int np)) (repr, x_ind, 0, 0) = Inr st \<and>
          (case st of (r, xi, n_o, n_z) \<Rightarrow>
             length r = 2 * P \<and> length xi = np \<and> take (2 * P) r = concat (map ?pf [0..<P]) \<and>
             n_o = int (carried 1 s np P) \<and> n_z = int (carried 0 s np P))"
  proof (rule for_loop_upt_inv[where I="\<lambda>j (r, xi, n_o, n_z).
             length r = 2 * P \<and> length xi = np \<and> take (2 * j) r = concat (map ?pf [0..<j]) \<and>
             n_o = int (carried 1 s np j) \<and> n_z = int (carried 0 s np j)"], goal_cases)
    case 1
    show ?case using lx lr by (simp add: carried_def)
  next
    case 2
    show ?case by simp
  next
    case (3 j st)
    obtain r xi n_o n_z where st: "st = (r, xi, n_o, n_z)" by (cases st)
    from 3(3) st have inv: "length r = 2 * P" "length xi = np"
      "take (2 * j) r = concat (map ?pf [0..<j])"
      "n_o = int (carried 1 s np j)" "n_z = int (carried 0 s np j)" by simp_all
    have "Suc j * np \<le> P * np" using 3(2) by (intro mult_le_mono1) simp
    then have fit: "j * np + np \<le> length s" using fits by simp
    have jr: "2 * j + 1 < length r" using 3(2) inv(1) by simp
    have step: "featrend_piece s agg (int np) j (r, xi, n_o, n_z) =
           Inr (r[2 * j := agg_or_zero agg (lengths_with 1 (piece_runs s np j) @ replicate (nat n_o) 0),
                     2 * j + 1 := agg_or_zero agg (lengths_with 0 (piece_runs s np j) @ replicate (nat n_z) 0)],
                map (\<lambda>i. int i + int np * int j) [0..<np],
                int (length (lengths_with 1 (piece_runs s np j))),
                int (length (lengths_with 0 (piece_runs s np j))))"
      using np2 fit inv(2) jr by (rule featrend_piece_ok) (simp_all add: inv)
    have tk: "take (2 * Suc j)
                (r[2 * j := agg_or_zero agg (lengths_with 1 (piece_runs s np j) @ replicate (nat n_o) 0),
                   2 * j + 1 := agg_or_zero agg (lengths_with 0 (piece_runs s np j) @ replicate (nat n_z) 0)]) =
              concat (map ?pf [0..<Suc j])"
      unfolding take_two_updates[OF jr] inv(3) using inv(4,5) by simp
    show ?case
      unfolding st step using inv(1) tk
      by (simp add: carried_def)
  qed
  then show ?thesis by auto
qed

lemma repr_featrend_eq:
  assumes sma: "repr_sma x order = Inr s" and p1: "1 \<le> pieces"
    and np2: "2 \<le> length s div nat pieces"
  shows "repr_featrend x agg pieces order = Inr (padded_features s agg (nat pieces))"
proof -
  let ?P = "nat pieces"
  let ?np = "length s div ?P"
  have sd: "int (length s) sdiv pieces = int ?np" using p1
    by (simp add: signed_divide_int_def sgn_if zdiv_int)
  have fits: "?P * ?np \<le> length s" by simp
  have a1: "alloc (pieces * 2) (Fin 0) = Inr (replicate (2 * ?P) (Fin 0))"
    using p1 by (simp add: alloc_def nat_mult_distrib mult.commute)
  have a2: "alloc (int ?np) (0::int) = Inr (replicate ?np 0)"
    by (simp add: alloc_def)
  have "\<exists>st. for_loop [0..<?P] (featrend_piece s agg (int ?np))
          (replicate (2 * ?P) (Fin 0), replicate ?np 0, 0, 0) = Inr st \<and>
          fst st = padded_features s agg ?P"
    unfolding padded_features_def
    by (rule featrend_loop[OF np2 fits]) simp_all
  then obtain st where st: "for_loop [0..<?P] (featrend_piece s agg (int ?np))
          (replicate (2 * ?P) (Fin 0), replicate ?np 0, 0, 0) = Inr st"
          "fst st = padded_features s agg ?P" by blast
  obtain r xi n_o n_z where st4: "st = (r, xi, n_o, n_z)" by (cases st)
  have l: "for_loop [0..<?P] (featrend_piece s agg (int ?np))
          (replicate (2 * ?P) (Fin 0), replicate ?np 0, 0, 0) = Inr (r, xi, n_o, n_z)"
    and r: "r = padded_features s agg ?P"
    using st st4 by simp_all
  have pz: "pieces \<noteq> 0" using p1 by simp
  show ?thesis
    unfolding repr_featrend_def sma bindE_Inr a1 Let_def sd a2 l prod.case r
    using pz by simp
qed

lemma repr_featrend_single_piece:
  assumes sma: "repr_sma x order = Inr s" and np2: "2 \<le> length s"
  shows "repr_featrend x agg 1 order = Inr (trend_features s agg 1)"
proof -
  have "repr_featrend x agg 1 order = Inr (padded_features s agg (nat 1))"
    using sma by (rule repr_featrend_eq) (simp_all add: np2)
  then show ?thesis
    by (simp add: padded_features_def trend_features_def carried_def)
qed

lemma piece_runs_lengths_positive:
  "\<forall>l\<in>set (lengths_with b (piece_runs s np j)). 1 \<le> l"
proof (cases "bindE (trending (take np (drop (j * np) s))) (\<lambda>bits. rleC (map dbl_of_int bits))")
  case (Inl e)
  then show ?thesis by (simp add: piece_runs_def lengths_with_def)
next
  case (Inr r)
  then obtain bits where b: "trending (take np (drop (j * np) s)) = Inr bits"
    "rleC (map dbl_of_int bits) = Inr r"
    by (cases "trending (take np (drop (j * np) s))") simp_all
  have "map dbl_of_int bits \<noteq> []" using b(2) rleC_empty by auto
  from rleC_runs[OF this dbl_of_int_no_NaN dbl_of_int_no_NZero] b(2) have pos: "\<forall>l\<in>set (lengths r). 1 \<le> l"
    by auto
  have pr: "piece_runs s np j = runs_of r" using Inr by (simp add: piece_runs_def)
  show ?thesis
  proof
    fix l assume "l \<in> set (lengths_with b (piece_runs s np j))"
    then obtain v where "(v, l) \<in> set (runs_of r)"
      unfolding pr lengths_with_def by auto
    then have "l \<in> set (lengths r)" unfolding runs_of_def by (rule set_zip_rightD)
    then show "1 \<le> l" using pos by blast
  qed
qed

lemma repr_featrend_padding_invisible:
  assumes sma: "repr_sma x order = Inr s" and p1: "1 \<le> pieces"
    and np2: "2 \<le> length s div nat pieces"
    and ins: "\<And>ls k. \<forall>l\<in>set ls. 1 \<le> l \<Longrightarrow>
                agg_or_zero agg (ls @ replicate k 0) = agg_or_zero agg ls"
  shows "repr_featrend x agg pieces order = Inr (trend_features s agg (nat pieces))"
proof -
  have "padded_features s agg (nat pieces) = trend_features s agg (nat pieces)"
    unfolding padded_features_def trend_features_def
    using ins[OF piece_runs_lengths_positive] by simp
  then show ?thesis using repr_featrend_eq[OF sma p1 np2, of agg] by simp
qed

lemma sum_ignores_padding:
  assumes "\<forall>l\<in>set ls. 1 \<le> l"
  shows "agg_or_zero (\<lambda>ls. accumulate (map dbl_of_int ls)) (ls @ replicate k 0) =
         agg_or_zero (\<lambda>ls. accumulate (map dbl_of_int ls)) ls"
proof -
  have a: "\<forall>l\<in>set (ls @ replicate k 0). 0 \<le> l" using assms by fastforce
  have b: "\<forall>l\<in>set ls. 0 \<le> l" using assms by fastforce
  show ?thesis
    unfolding agg_or_zero_def accumulate_ints[OF a] accumulate_ints[OF b]
    by (simp add: dbl_of_int_zero sum_list_replicate)
qed

lemma max_ignores_padding:
  assumes "\<forall>l\<in>set ls. 1 \<le> l"
  shows "agg_or_zero (\<lambda>ls. dbl_of_int (Max (set ls))) (ls @ replicate k 0) =
         agg_or_zero (\<lambda>ls. dbl_of_int (Max (set ls))) ls"
proof (cases "ls = []")
  case True
  have "k \<noteq> 0 \<Longrightarrow> set (replicate k (0::int)) = {0}" by simp
  then show ?thesis using True by (cases "k = 0") (simp_all add: agg_or_zero_def dbl_of_int_zero)
next
  case False
  then obtain l where l: "l \<in> set ls" by (cases ls) auto
  then have "1 \<le> l" "l \<le> Max (set ls)" using assms by simp_all
  then have "0 \<le> Max (set ls)" by linarith
  have "Max (set (ls @ replicate k 0)) = Max (set ls)"
  proof (cases "k = 0")
    case True
    then show ?thesis by simp
  next
    case k: False
    then have "set (ls @ replicate k 0) = insert 0 (set ls)" by auto
    moreover have "Max (insert 0 (set ls)) = max 0 (Max (set ls))"
      using False by (intro Max_insert) simp_all
    ultimately show ?thesis using \<open>0 \<le> Max (set ls)\<close> by simp
  qed
  then show ?thesis using False by (simp add: agg_or_zero_def)
qed

lemma repr_featrend_sum_max:
  assumes "repr_sma x order = Inr s" and "1 \<le> pieces" and "2 \<le> length s div nat pieces"
  shows "repr_featrend x (\<lambda>ls. accumulate (map dbl_of_int ls)) pieces order =
           Inr (trend_features s (\<lambda>ls. accumulate (map dbl_of_int ls)) (nat pieces))"
    and "repr_featrend x (\<lambda>ls. dbl_of_int (Max (set ls))) pieces order =
           Inr (trend_features s (\<lambda>ls. dbl_of_int (Max (set ls))) (nat pieces))"
proof -
  show "repr_featrend x (\<lambda>ls. accumulate (map dbl_of_int ls)) pieces order =
           Inr (trend_features s (\<lambda>ls. accumulate (map dbl_of_int ls)) (nat pieces))"
    using assms by (rule repr_featrend_padding_invisible) (rule sum_ignores_padding)
  show "repr_featrend x (\<lambda>ls. dbl_of_int (Max (set ls))) pieces order =
           Inr (trend_features s (\<lambda>ls. dbl_of_int (Max (set ls))) (nat pieces))"
    using assms by (rule repr_featrend_padding_invisible) (rule max_ignores_padding)
qed

text \<open>
  C2 fails on the code. The counters \<open>o\<close> and \<open>z\<close> are set to 0 before the second loop of
  a piece but not before the first loop of the next piece, so from the second piece on the
  vectors \<open>ones\<close> and \<open>zeros\<close> are longer than the runs they hold, by the number of such runs
  in the piece before, and end in that many zeros. On \<open>x = [0,1,2,3,4]\<close> with order 1 and 2
  pieces the smoothed sequence is \<open>[0,2,4,6]\<close>; its second block \<open>[4,6]\<close> has the single run
  \<open>(1, 1)\<close>, so the claim gives \<open>meanC [1] = 1\<close> at index 2, and the code returns
  \<open>meanC [1, 0] = 1/2\<close>. What the code returns in general is \<open>padded_features\<close>
  (\<open>repr_featrend_eq\<close>); it is the claim's \<open>trend_features\<close> for a single piece and for an
  aggregation function that ignores zeros after the lengths, such as the sum and the
  maximum (\<open>repr_featrend_single_piece\<close>, \<open>repr_featrend_padding_invisible\<close>).
\<close>

theorem repr_featrend_counters_carried:
  "repr_sma [Fin 0, Fin 1, Fin 2, Fin 3, Fin 4] 1 = Inr [Fin 0, Fin 2, Fin 4, Fin 6] \<and>
   length [Fin 0, Fin 2, Fin 4, Fin 6] div 2 = 2 \<and>
   piece_runs [Fin 0, Fin 2, Fin 4, Fin 6] 2 1 = [(1, 1)] \<and>
   trend_features [Fin 0, Fin 2, Fin 4, Fin 6] (\<lambda>ls. meanC (map dbl_of_int ls)) 2 =
     [Fin 1, Fin 0, Fin 1, Fin 0] \<and>
   repr_featrend [Fin 0, Fin 1, Fin 2, Fin 3, Fin 4] (\<lambda>ls. meanC (map dbl_of_int ls)) 2 1 =
     Inr [Fin 1, Fin 0, Fin (1 / 2), Fin 0]"
  by code_simp

end
